theory Spec2Isabelle
  imports Main "HOL-Library.AList"
begin

section \<open>Values, objects and the store\<close>

text \<open>
  The changeset keeps its two buffers in JavaScript objects and mutates them, and objects
  nested in them, in place; copies are shallow. Objects therefore live in a store and a
  value only refers to them. The store is a list of cells, an address is an index into it,
  and a new object is appended, so an address that exists never changes its meaning.

  An object is the association list of its own enumerable properties, in insertion order.
  Members inherited from a prototype and the hidden metadata of the framework are not part
  of an object here. Functions are not values: the validator and the save operation of the
  content are parameters of the operations that call them.
\<close>

type_synonym addr = nat

datatype val =
    VUndefined
  | VNull
  | VBool bool
  | VNum int
  | VStr string
  | VRef addr
  | VRelay string

type_synonym props = "(string \<times> val) list"

datatype cell = PlainObj props | ArrayObj "val list"

type_synonym heap = "cell list"

datatype error =
    Error string
  | TypeError string
  | AssertionFailed string
  | Unmodelled string

definition cell_at :: "heap \<Rightarrow> addr \<Rightarrow> cell option" where
  "cell_at h a = (if a < length h then Some (h ! a) else None)"

definition alloc :: "heap \<Rightarrow> cell \<Rightarrow> heap \<times> addr" where
  "alloc h c = (h @ [c], length h)"

definition lookup :: "props \<Rightarrow> string \<Rightarrow> val" where
  "lookup ps k = (case map_of ps k of Some v \<Rightarrow> v | None \<Rightarrow> VUndefined)"

text \<open>Decimal rendering of a length or an array index.\<close>

definition digit_char :: "nat \<Rightarrow> char" where
  "digit_char d = ''0123456789'' ! d"

function string_of_nat :: "nat \<Rightarrow> string" where
  "string_of_nat n =
     (if n < 10 then [digit_char n] else string_of_nat (n div 10) @ [digit_char (n mod 10)])"
  by pat_completeness auto
termination
  by (relation "measure (\<lambda>n. n)") auto

definition index_props :: "val list \<Rightarrow> props" where
  "index_props xs = zip (map string_of_nat [0..<length xs]) xs"

text \<open>The own enumerable properties that \<open>Object.assign\<close>, \<open>Object.keys\<close> and
  \<open>for ... in\<close> see.\<close>

definition own_enumerable :: "heap \<Rightarrow> val \<Rightarrow> props" where
  "own_enumerable h v =
     (case v of
        VRef a \<Rightarrow>
          (case cell_at h a of
             Some (PlainObj ps) \<Rightarrow> ps
           | Some (ArrayObj xs) \<Rightarrow> index_props xs
           | None \<Rightarrow> [])
      | VStr s \<Rightarrow> index_props (map (\<lambda>c. VStr [c]) s)
      | _ \<Rightarrow> [])"

definition object_keys :: "heap \<Rightarrow> val \<Rightarrow> string list" where
  "object_keys h v = map fst (own_enumerable h v)"

text \<open>The property read \<open>v[k]\<close>. The source never reads a property of \<open>undefined\<close> or
  \<open>null\<close> except in the three-segment branch of the path delete, where the read is
  followed by a delete that raises.\<close>

definition js_prop :: "heap \<Rightarrow> val \<Rightarrow> string \<Rightarrow> val" where
  "js_prop h v k =
     (case v of
        VRef a \<Rightarrow>
          (case cell_at h a of
             Some (PlainObj ps) \<Rightarrow> lookup ps k
           | Some (ArrayObj xs) \<Rightarrow>
               (if k = ''length'' then VNum (int (length xs)) else lookup (index_props xs) k)
           | None \<Rightarrow> VUndefined)
      | VStr s \<Rightarrow>
          (if k = ''length'' then VNum (int (length s))
           else lookup (index_props (map (\<lambda>c. VStr [c]) s)) k)
      | _ \<Rightarrow> VUndefined)"

definition hasOwnProperty :: "heap \<Rightarrow> val \<Rightarrow> string \<Rightarrow> bool" where
  "hasOwnProperty h v k =
     (k \<in> set (object_keys h v) \<or>
      (k = ''length'' \<and>
       (case v of
          VRef a \<Rightarrow> (case cell_at h a of Some (ArrayObj xs) \<Rightarrow> True | _ \<Rightarrow> False)
        | VStr s \<Rightarrow> True
        | _ \<Rightarrow> False)))"

text \<open>The assignment \<open>o[k] = v\<close> on a plain object.\<close>

definition put_prop :: "heap \<Rightarrow> addr \<Rightarrow> string \<Rightarrow> val \<Rightarrow> heap" where
  "put_prop h a k v =
     (case cell_at h a of
        Some (PlainObj ps) \<Rightarrow> h[a := PlainObj (AList.update k v ps)]
      | _ \<Rightarrow> h)"

text \<open>
  \<open>delete v[k]\<close> in strict mode (the sources are modules). On \<open>undefined\<close> and \<open>null\<close> it
  raises; on a number or a boolean it does nothing; on a string it raises for an index or
  the length and does nothing otherwise. Deleting an element of an array would leave a
  hole, which \<open>ArrayObj\<close> cannot hold, and a relay is an object of the framework whose
  source is absent: both are outside the model.
\<close>

definition js_delete :: "heap \<Rightarrow> val \<Rightarrow> string \<Rightarrow> error + heap" where
  "js_delete h v k =
     (case v of
        VUndefined \<Rightarrow> Inl (TypeError ''Cannot convert undefined or null to object'')
      | VNull \<Rightarrow> Inl (TypeError ''Cannot convert undefined or null to object'')
      | VRef a \<Rightarrow>
          (case cell_at h a of
             Some (PlainObj ps) \<Rightarrow> Inr (h[a := PlainObj (AList.delete k ps)])
           | Some (ArrayObj xs) \<Rightarrow>
               (if k = ''length'' then Inl (TypeError ''Cannot delete property'')
                else if k \<in> set (map fst (index_props xs))
                then Inl (Unmodelled ''hole in an array'')
                else Inr h)
           | None \<Rightarrow> Inr h)
      | VStr s \<Rightarrow>
          (if hasOwnProperty h (VStr s) k then Inl (TypeError ''Cannot delete property'')
           else Inr h)
      | VRelay r \<Rightarrow> Inl (Unmodelled ''delete on a relay'')
      | _ \<Rightarrow> Inr h)"

subsection \<open>The helpers of the framework\<close>

text \<open>
  \<open>isNone\<close>, \<open>isEmpty\<close>, \<open>isBlank\<close>, \<open>isPresent\<close>, \<open>isArray\<close>, \<open>isEqual\<close> and \<open>get\<close>
  belong to Ember, not to this repository. They are written out on the values above:
  \<open>isEmpty\<close> holds of \<open>undefined\<close>, \<open>null\<close>, the empty string, the empty array and of an
  object whose \<open>size\<close> (or else \<open>length\<close>) is the number zero; \<open>isBlank\<close> adds the strings
  without a character that the regular expression \<open>\S\<close> matches; \<open>isEqual\<close> is \<open>===\<close>,
  which on objects and arrays compares references.

  A string is a list of 8-bit characters, read as the code units from U+0000 to U+00FF.
  Among them the white space of a regular expression is TAB, LF, VT, FF, CR, the space
  and the no-break space U+00A0; the white space beyond U+00FF cannot occur in a string
  of this theory.

  \<open>isArray\<close> holds of an array and of every other object that has a \<open>length\<close> which is a
  number, unless it has a truthy \<open>setInterval\<close>.
\<close>

definition isNone :: "val \<Rightarrow> bool" where
  "isNone v = (v = VUndefined \<or> v = VNull)"

definition collection_empty :: "props \<Rightarrow> bool" where
  "collection_empty ps =
     (case map_of ps ''size'' of
        Some (VNum n) \<Rightarrow> n = 0
      | _ \<Rightarrow> (case map_of ps ''length'' of Some (VNum n) \<Rightarrow> n = 0 | _ \<Rightarrow> False))"

definition isEmpty :: "heap \<Rightarrow> val \<Rightarrow> bool" where
  "isEmpty h v =
     (case v of
        VUndefined \<Rightarrow> True
      | VNull \<Rightarrow> True
      | VStr s \<Rightarrow> s = []
      | VRef a \<Rightarrow>
          (case cell_at h a of
             Some (ArrayObj xs) \<Rightarrow> xs = []
           | Some (PlainObj ps) \<Rightarrow> collection_empty ps
           | None \<Rightarrow> False)
      | _ \<Rightarrow> False)"

definition white_space :: "char \<Rightarrow> bool" where
  "white_space c =
     (c \<in> set [CHR 0x09, CHR 0x0A, CHR 0x0B, CHR 0x0C, CHR 0x0D, CHR '' '', CHR 0xA0])"

definition isBlank :: "heap \<Rightarrow> val \<Rightarrow> bool" where
  "isBlank h v = (isEmpty h v \<or> (case v of VStr s \<Rightarrow> list_all white_space s | _ \<Rightarrow> False))"

definition isPresent :: "heap \<Rightarrow> val \<Rightarrow> bool" where
  "isPresent h v = (\<not> isBlank h v)"

definition truthy :: "val \<Rightarrow> bool" where
  "truthy v = (v \<noteq> VUndefined \<and> v \<noteq> VNull \<and> v \<noteq> VBool False \<and> v \<noteq> VNum 0 \<and> v \<noteq> VStr [])"

definition isArray :: "heap \<Rightarrow> val \<Rightarrow> bool" where
  "isArray h v =
     (case v of
        VRef a \<Rightarrow>
          (case cell_at h a of
             Some (ArrayObj xs) \<Rightarrow> True
           | Some (PlainObj ps) \<Rightarrow>
               \<not> truthy (lookup ps ''setInterval'') \<and>
               (case lookup ps ''length'' of VNum n \<Rightarrow> True | _ \<Rightarrow> False)
           | None \<Rightarrow> False)
      | _ \<Rightarrow> False)"

definition isEqual :: "val \<Rightarrow> val \<Rightarrow> bool" where
  "isEqual a b = (a = b)"

text \<open>The segments of a key: \<open>key.split('.')\<close>.\<close>

fun split_dot :: "string \<Rightarrow> string list" where
  "split_dot [] = [[]]"
| "split_dot (c # cs) =
     (if c = CHR ''.'' then [] # split_dot cs
      else (c # hd (split_dot cs)) # tl (split_dot cs))"

definition DOT_SEPARATOR :: char where
  "DOT_SEPARATOR = CHR ''.''"

subsection \<open>Helpers of the repository that are not among the sources\<close>

text \<open>Modelled from the spec: \<open>utils/assign\<close> (\<open>pureAssign\<close>) is missing. The spec calls
  it a shallow merge/copy: a new object that receives the own enumerable properties of the
  arguments from left to right, a later one overriding an earlier one; the values are
  shared with the arguments.\<close>

definition assign_props :: "props \<Rightarrow> props \<Rightarrow> props" where
  "assign_props ps qs = foldl (\<lambda>acc kv. AList.update (fst kv) (snd kv) acc) ps qs"

definition pureAssign :: "heap \<Rightarrow> val list \<Rightarrow> heap \<times> addr" where
  "pureAssign h vs = alloc h (PlainObj (foldl assign_props [] (map (own_enumerable h) vs)))"

text \<open>Modelled from the spec: \<open>utils/is-changeset\<close> is missing. The spec only says that it
  recognises a changeset. A changeset is an object of the framework and never a value of
  type \<open>val\<close>, so on the values of this theory the answer is no.\<close>

definition isChangeset :: "heap \<Rightarrow> val \<Rightarrow> bool" where
  "isChangeset h v = False"

text \<open>Modelled from the spec: \<open>utils/is-object\<close> is missing, the "is a mapping object"
  predicate. A relay is an object of the framework and counts as one.\<close>

definition isObject :: "heap \<Rightarrow> val \<Rightarrow> bool" where
  "isObject h v =
     (case v of
        VRef a \<Rightarrow> (case cell_at h a of Some (PlainObj ps) \<Rightarrow> True | _ \<Rightarrow> False)
      | VRelay r \<Rightarrow> True
      | _ \<Rightarrow> False)"

section \<open>The path delete: \<open>utils/delete-key\<close>\<close>

text \<open>A loop whose body may raise: the first error ends it.\<close>

fun forEach :: "('s \<Rightarrow> 'a \<Rightarrow> error + 's) \<Rightarrow> 'a list \<Rightarrow> 's \<Rightarrow> error + 's" where
  "forEach f [] s = Inr s"
| "forEach f (x # xs) s = (case f s x of Inl e \<Rightarrow> Inl e | Inr s' \<Rightarrow> forEach f xs s')"

lemma forEach_cong [fundef_cong]:
  "xs = ys \<Longrightarrow> s = t \<Longrightarrow> (\<And>s' x. x \<in> set ys \<Longrightarrow> f s' x = g s' x) \<Longrightarrow>
   forEach f xs s = forEach g ys t"
proof (induction ys arbitrary: xs s t)
  case Nil
  then show ?case by simp
next
  case (Cons y ys)
  then show ?case by (auto split: sum.splits)
qed

datatype keysarg = NoKeys | OneKey string | KeyList "string list"

definition keysToDelete :: "keysarg \<Rightarrow> string list" where
  "keysToDelete ks = (case ks of KeyList l \<Rightarrow> l | OneKey k \<Rightarrow> [k] | NoKeys \<Rightarrow> [])"

text \<open>The branch of the loop body for a key with a separator, on the object \<open>t\<close>
  (\<open>finalObject\<close>): two segments, three segments, or the error.\<close>

definition delete_nested :: "heap \<Rightarrow> addr \<Rightarrow> string \<Rightarrow> error + heap" where
  "delete_nested h t elem =
     (let parts = split_dot elem in
      if length parts = 2 then
        (let lastAttribute = parts ! 1;
             pathWithoutLastEl = parts ! 0;
             nestedObjectRef = js_prop h (VRef t) pathWithoutLastEl
         in if \<not> isEmpty h nestedObjectRef then
              (case js_delete h nestedObjectRef lastAttribute of
                 Inl e \<Rightarrow> Inl e
               | Inr h1 \<Rightarrow>
                   if length (object_keys h1 nestedObjectRef) = 0
                   then js_delete h1 (VRef t) pathWithoutLastEl
                   else Inr h1)
            else Inr h)
      else if length parts = 3 then
        (let lastAttribute = parts ! 2;
             nestedObjectRef = js_prop h (VRef t) (parts ! 0)
         in if \<not> isEmpty h nestedObjectRef then
              (let deepestRef = js_prop h nestedObjectRef (parts ! 1)
               in js_delete h deepestRef lastAttribute)
            else Inr h)
      else Inl (Error (''Nested level '' @ string_of_nat (length parts) @
                       '' is not supported yet'')))"

text \<open>
  \<open>deleteKeysFromObject(object, keys)\<close>, called without options as \<open>_deleteKey\<close> does and
  as the recursive call does in effect (it passes the options without \<open>imutable\<close>): the
  work is done on a shallow copy. The copy is never \<open>undefined\<close>, so the first \<open>throw\<close>
  cannot happen; the second is the case \<open>NoKeys\<close>. The \<open>for ... in\<close> loop visits the keys
  that the copy has when the loop starts and skips one that has been deleted meanwhile.
  The name \<open>isObject\<close> in this file is bound to the default export of
  \<open>utils/is-changeset\<close>.
\<close>

function deleteKeysFromObject :: "heap \<Rightarrow> val \<Rightarrow> keysarg \<Rightarrow> error + (heap \<times> addr)" where
  "deleteKeysFromObject h object keys =
     (case pureAssign h [object] of (h0, t) \<Rightarrow>
      if keys = NoKeys
      then Inl (Error ''provide at least two parameters: object and list of keys'')
      else
        (case forEach
                (\<lambda>h1 elem.
                   forEach
                     (\<lambda>h2 prop.
                        if hasOwnProperty h2 (VRef t) prop then
                          if elem = prop then js_delete h2 (VRef t) prop
                          else if DOT_SEPARATOR \<in> set elem then delete_nested h2 t elem
                          else if isChangeset h2 (js_prop h2 (VRef t) prop) then
                            (case deleteKeysFromObject h2 (js_prop h2 (VRef t) prop)
                                    (KeyList (keysToDelete keys)) of
                               Inl e \<Rightarrow> Inl e
                             | Inr (h3, r) \<Rightarrow>
                                 (let h4 = put_prop h3 t prop (VRef r)
                                  in if length (object_keys h4 (js_prop h4 (VRef t) prop)) = 0
                                     then js_delete h4 (VRef t) prop
                                     else Inr h4))
                          else Inr h2
                        else Inr h2)
                     (object_keys h1 (VRef t)) h1)
                (keysToDelete keys) h0 of
           Inl e \<Rightarrow> Inl e
         | Inr h5 \<Rightarrow>
             if isEmpty h5 (VRef t) then Inr (alloc h5 (PlainObj [])) else Inr (h5, t)))"
  by pat_completeness auto
termination
  by (relation "{}") (simp_all add: isChangeset_def)


declare deleteKeysFromObject.simps [simp del]

text \<open>No value is a changeset, so the loop body never takes the recursive branch: the
  function unfolds to two nested loops over \<open>delete_body\<close>.\<close>

definition delete_body :: "addr \<Rightarrow> string \<Rightarrow> heap \<Rightarrow> string \<Rightarrow> error + heap" where
  "delete_body t elem h2 prop =
     (if hasOwnProperty h2 (VRef t) prop then
        if elem = prop then js_delete h2 (VRef t) prop
        else if DOT_SEPARATOR \<in> set elem then delete_nested h2 t elem
        else Inr h2
      else Inr h2)"

lemma deleteKeysFromObject_unfold:
  "deleteKeysFromObject h object keys =
     (case pureAssign h [object] of (h0, t) \<Rightarrow>
      if keys = NoKeys
      then Inl (Error ''provide at least two parameters: object and list of keys'')
      else
        (case forEach (\<lambda>h1 elem. forEach (delete_body t elem) (object_keys h1 (VRef t)) h1)
                (keysToDelete keys) h0 of
           Inl e \<Rightarrow> Inl e
         | Inr h5 \<Rightarrow>
             if isEmpty h5 (VRef t) then Inr (alloc h5 (PlainObj [])) else Inr (h5, t)))"
  by (subst deleteKeysFromObject.simps)
     (simp add: isChangeset_def delete_body_def [abs_def] split: prod.splits cong: if_cong)

section \<open>The changeset\<close>

subsection \<open>Path reads and writes of the framework\<close>

text \<open>
  Ember's \<open>get(obj, keyName)\<close> starts with its assertions: the object is not \<open>undefined\<close>
  or \<open>null\<close>, the key does not start with \<open>this.\<close>, and the key is not the empty string.
  It reads a key with a separator as a path: it walks the segments, each with a \<open>get\<close> of
  its own, and answers \<open>undefined\<close> as soon as the value in hand is not an object or a
  string, or is an object that says it is destroyed. Its \<open>set\<close> on such a key looks the
  parent path up and assigns the last segment there; when the parent is missing it
  raises. Reading through a relay would call back into the changeset and is not modelled:
  a relay has no properties here.
\<close>

definition gettable :: "val \<Rightarrow> bool" where
  "gettable v = (case v of VRef a \<Rightarrow> True | VStr s \<Rightarrow> True | VRelay r \<Rightarrow> True | _ \<Rightarrow> False)"

definition hasThis :: "string \<Rightarrow> bool" where
  "hasThis path = (take 5 path = ''this.'')"

definition get_asserts :: "val \<Rightarrow> string \<Rightarrow> error option" where
  "get_asserts obj keyName =
     (if isNone obj then
        Some (AssertionFailed (''Cannot call get with '' @ [CHR 0x27] @ keyName @ [CHR 0x27] @
                               '' on an undefined object.''))
      else if hasThis keyName then
        Some (AssertionFailed ([CHR 0x27] @ ''this'' @ [CHR 0x27] @ '' in paths is not supported''))
      else if keyName = [] then
        Some (AssertionFailed ''Cannot call `Ember.get` with an empty string'')
      else None)"

fun getPath :: "heap \<Rightarrow> val \<Rightarrow> string list \<Rightarrow> error + val" where
  "getPath h obj [] = Inr obj"
| "getPath h obj (part # parts) =
     (if \<not> gettable obj then Inr VUndefined
      else
        (case get_asserts obj part of
           Some e \<Rightarrow> Inl e
         | None \<Rightarrow>
             (let obj' = js_prop h obj part
              in if truthy obj' \<and> truthy (js_prop h obj' ''isDestroyed'') then Inr VUndefined
                 else getPath h obj' parts)))"

definition ember_get :: "heap \<Rightarrow> val \<Rightarrow> string \<Rightarrow> error + val" where
  "ember_get h obj keyName =
     (case get_asserts obj keyName of
        Some e \<Rightarrow> Inl e
      | None \<Rightarrow>
          if DOT_SEPARATOR \<in> set keyName then getPath h obj (split_dot keyName)
          else Inr (js_prop h obj keyName))"

definition join_dot :: "string list \<Rightarrow> string" where
  "join_dot ps = (case ps of [] \<Rightarrow> [] | p # qs \<Rightarrow> foldl (\<lambda>acc q. acc @ [DOT_SEPARATOR] @ q) p qs)"

definition set_flat :: "heap \<Rightarrow> val \<Rightarrow> string \<Rightarrow> val \<Rightarrow> error + heap" where
  "set_flat h obj keyName v =
     (case obj of
        VRef a \<Rightarrow>
          (case cell_at h a of
             Some (PlainObj ps) \<Rightarrow> Inr (put_prop h a keyName v)
           | Some (ArrayObj xs) \<Rightarrow> Inl (Unmodelled ''assignment to an array'')
           | None \<Rightarrow> Inl (Unmodelled ''dangling reference''))
      | VRelay r \<Rightarrow> Inl (Unmodelled ''assignment through a relay'')
      | _ \<Rightarrow> Inl (AssertionFailed ''Cannot call set on a value that is not an object''))"

definition ember_set :: "heap \<Rightarrow> val \<Rightarrow> string \<Rightarrow> val \<Rightarrow> error + heap" where
  "ember_set h obj key v =
     (if DOT_SEPARATOR \<in> set key then
        (let parts = split_dot key
         in case getPath h obj (butlast parts) of
              Inl e \<Rightarrow> Inl e
            | Inr newRoot \<Rightarrow>
                if truthy newRoot then set_flat h newRoot (last parts) v
                else Inl (Error (''Property set failed: object in path '' @
                                 join_dot (butlast parts) @
                                 '' could not be found or was destroyed.'')))
      else set_flat h obj key v)"

text \<open>\<open>setProperties(obj, properties)\<close>: one \<open>set\<close> for each of the keys that the
  properties have when the loop starts, with the value read when its turn comes.\<close>

definition setProperties :: "heap \<Rightarrow> val \<Rightarrow> val \<Rightarrow> error + heap" where
  "setProperties h obj properties =
     forEach (\<lambda>h1 propertyName. ember_set h1 obj propertyName (js_prop h1 properties propertyName))
       (object_keys h properties) h"

subsection \<open>More helpers that are not among the sources\<close>

text \<open>Modelled from the spec: \<open>utils/deep-set\<close> is missing. The spec: set "walks/creates
  intermediate mapping levels as needed; the final segment's value is assigned". A level
  that is a plain object is walked into, in place; anything else at an intermediate
  segment is replaced by a new empty mapping.\<close>

fun deepSet_walk :: "heap \<Rightarrow> addr \<Rightarrow> string list \<Rightarrow> val \<Rightarrow> heap" where
  "deepSet_walk h a [] v = h"
| "deepSet_walk h a [k] v = put_prop h a k v"
| "deepSet_walk h a (k # k' # ks) v =
     (case js_prop h (VRef a) k of
        VRef b \<Rightarrow>
          (case cell_at h b of
             Some (PlainObj ps) \<Rightarrow> deepSet_walk h b (k' # ks) v
           | _ \<Rightarrow>
               (case alloc h (PlainObj []) of
                  (h1, c) \<Rightarrow> deepSet_walk (put_prop h1 a k (VRef c)) c (k' # ks) v))
      | _ \<Rightarrow>
          (case alloc h (PlainObj []) of
             (h1, c) \<Rightarrow> deepSet_walk (put_prop h1 a k (VRef c)) c (k' # ks) v))"

definition deepSet :: "heap \<Rightarrow> addr \<Rightarrow> string \<Rightarrow> val \<Rightarrow> heap" where
  "deepSet h a key v = deepSet_walk h a (split_dot key) v"

text \<open>Modelled from the spec: \<open>utils/object-without\<close> is missing, the "object minus a set
  of keys": a new object with the properties of the source whose key is not excluded.\<close>

definition objectWithout :: "heap \<Rightarrow> string list \<Rightarrow> val \<Rightarrow> heap \<times> addr" where
  "objectWithout h excludedKeys source =
     alloc h (PlainObj (assign_props []
       (filter (\<lambda>kv. fst kv \<notin> set excludedKeys) (own_enumerable h source))))"

text \<open>Modelled from the spec: \<open>utils/is-promise\<close> is missing. The result of a validator
  and of the save operation of the content is tagged instead: it is there now, or it is a
  promise, which resolves with a value, rejects with a reason, or never settles.\<close>

datatype settle = Resolves val | Rejects val | NeverSettles

datatype vresult = Now val | Later settle

subsection \<open>State\<close>

text \<open>
  The validator is called with the key, the new value, the old value, a copy of the
  changes and the content. It may create objects (the cells it returns are appended to
  the store) and is taken not to change an object that exists. \<open>None\<close> stands for a
  validator that is not a function.
\<close>

type_synonym validatorFn = "heap \<Rightarrow> string \<Rightarrow> val \<Rightarrow> val \<Rightarrow> addr \<Rightarrow> addr \<Rightarrow> cell list \<times> vresult"

datatype event = BeforeValidation string | AfterValidation string

record changeset =
  CONTENT :: addr
  CHANGES :: addr
  ERRORS :: addr
  VALIDATOR :: "validatorFn option"
  validationMap :: "string list"
  skipValidate :: bool
  RELAY_CACHE :: "string list"
  RUNNING_VALIDATIONS :: addr
  triggered :: "event list"

type_synonym state = "heap \<times> changeset"

datatype buffer = ChangesBuf | ErrorsBuf

definition get_buffer :: "buffer \<Rightarrow> changeset \<Rightarrow> addr" where
  "get_buffer b cs = (case b of ChangesBuf \<Rightarrow> CHANGES cs | ErrorsBuf \<Rightarrow> ERRORS cs)"

definition set_buffer :: "buffer \<Rightarrow> addr \<Rightarrow> changeset \<Rightarrow> changeset" where
  "set_buffer b a cs = (case b of ChangesBuf \<Rightarrow> cs\<lparr>CHANGES := a\<rparr> | ErrorsBuf \<Rightarrow> cs\<lparr>ERRORS := a\<rparr>)"

definition defaultValidatorFn :: validatorFn where
  "defaultValidatorFn h key newValue oldValue changes content = ([], Now (VBool True))"

text \<open>The factory \<open>changeset(obj, validateFn, validationMap, options)\<close> and \<open>init\<close>. The
  content is a reference to an object; \<open>validationMap\<close> keeps the keys of the map.\<close>

definition new_changeset ::
  "heap \<Rightarrow> addr \<Rightarrow> validatorFn option \<Rightarrow> string list \<Rightarrow> bool \<Rightarrow> error + state" where
  "new_changeset h obj validateFn vmap skip =
     (if \<not> isPresent h (VRef obj)
      then Inl (AssertionFailed ''Underlying object for changeset is missing'')
      else
        (case alloc h (PlainObj []) of (h1, c) \<Rightarrow>
         case alloc h1 (PlainObj []) of (h2, e) \<Rightarrow>
         case alloc h2 (PlainObj []) of (h3, r) \<Rightarrow>
           Inr (h3, \<lparr>CONTENT = obj, CHANGES = c, ERRORS = e, VALIDATOR = validateFn,
                     validationMap = vmap, skipValidate = skip, RELAY_CACHE = [],
                     RUNNING_VALIDATIONS = r, triggered = []\<rparr>)))"

text \<open>Modelled from the spec: \<open>utils/computed/is-empty-object\<close> is missing:
  "\<open>isValid\<close> iff the errors buffer is empty, \<open>isPristine\<close> iff the changes buffer is
  empty". The computed properties are read afresh at every use.\<close>

definition isEmptyObject :: "heap \<Rightarrow> addr \<Rightarrow> bool" where
  "isEmptyObject h a = (object_keys h (VRef a) = [])"

definition isValid :: "state \<Rightarrow> bool" where
  "isValid s = isEmptyObject (fst s) (ERRORS (snd s))"

definition isPristine :: "state \<Rightarrow> bool" where
  "isPristine s = isEmptyObject (fst s) (CHANGES (snd s))"

definition isInvalid :: "state \<Rightarrow> bool" where
  "isInvalid s = (\<not> isValid s)"

definition isDirty :: "state \<Rightarrow> bool" where
  "isDirty s = (\<not> isPristine s)"


subsection \<open>Reading\<close>

text \<open>\<open>_deleteKey(objName, key)\<close>. The buffer is never \<open>undefined\<close> or \<open>null\<close>; the
  notifications have no effect on the state.\<close>

definition p_deleteKey :: "buffer \<Rightarrow> string \<Rightarrow> state \<Rightarrow> error + state" where
  "p_deleteKey objName key s =
     (case s of (h, cs) \<Rightarrow>
        (let obj = get_buffer objName cs in
         case deleteKeysFromObject h (VRef obj) (OneKey key) of
           Inl e \<Rightarrow> Inl e
         | Inr (h1, objWithoutKey) \<Rightarrow>
             if \<not> isEqual (VRef obj) (VRef objWithoutKey)
             then Inr (h1, set_buffer objName objWithoutKey cs)
             else Inr (h1, cs)))"

text \<open>\<open>_recursivelyGet(key, obj)\<close>: the loop over the segments but the last.\<close>

fun recursivelyGet_loop :: "heap \<Rightarrow> string list \<Rightarrow> val \<Rightarrow> error + val" where
  "recursivelyGet_loop h [] obj = Inr VUndefined"
| "recursivelyGet_loop h [next] obj = ember_get h obj next"
| "recursivelyGet_loop h (next # k # ks) obj =
     (case ember_get h obj next of
        Inl e \<Rightarrow> Inl e
      | Inr obj' \<Rightarrow> if isNone obj' then Inr VUndefined else recursivelyGet_loop h (k # ks) obj')"

definition p_recursivelyGet :: "heap \<Rightarrow> string \<Rightarrow> val \<Rightarrow> error + val" where
  "p_recursivelyGet h key obj = recursivelyGet_loop h (split_dot key) obj"

text \<open>Modelled from the spec: \<open>-private/relay\<close> is missing. A relay is "one instance per
  distinct key per changeset, cached", so the relay for a key is identified by the key,
  and it delegates "upward to the owning changeset using the prefixed path".\<close>

definition p_relayFor :: "string \<Rightarrow> changeset \<Rightarrow> val \<times> changeset" where
  "p_relayFor key cs =
     (if key \<in> set (RELAY_CACHE cs) then (VRelay key, cs)
      else (VRelay key, cs\<lparr>RELAY_CACHE := RELAY_CACHE cs @ [key]\<rparr>))"

definition valueFor :: "string \<Rightarrow> state \<Rightarrow> error + (val \<times> changeset)" where
  "valueFor key s =
     (case s of (h, cs) \<Rightarrow>
        (let changes = VRef (CHANGES cs);
             errors = VRef (ERRORS cs);
             content = VRef (CONTENT cs)
         in case p_recursivelyGet h key errors of
              Inl e \<Rightarrow> Inl e
            | Inr error \<Rightarrow>
                if \<not> isNone error then
                  (case ember_get h error ''value'' of
                     Inl e \<Rightarrow> Inl e
                   | Inr v \<Rightarrow> Inr (v, cs))
                else if key \<in> set (RELAY_CACHE cs) then Inr (p_relayFor key cs)
                else
                  (case p_recursivelyGet h key changes of
                     Inl e \<Rightarrow> Inl e
                   | Inr change \<Rightarrow>
                       if \<not> isNone change then Inr (change, cs)
                       else if hasOwnProperty h changes key then
                         (case ember_get h changes key of
                            Inl e \<Rightarrow> Inl e
                          | Inr v \<Rightarrow> Inr (v, cs))
                       else
                         (case ember_get h content key of
                            Inl e \<Rightarrow> Inl e
                          | Inr oldValue \<Rightarrow>
                              if isObject h oldValue then Inr (p_relayFor key cs)
                              else Inr (oldValue, cs)))))"

text \<open>\<open>get(this, key)\<close> for a key that does not name a member of the changeset itself:
  after the assertions of \<open>get\<close> the unknown property hook is \<open>valueFor\<close>, and a path is
  walked segment by segment, a relay answering with the value for the prefixed path.\<close>

fun get_this_walk ::
  "heap \<Rightarrow> changeset \<Rightarrow> val \<Rightarrow> string list \<Rightarrow> error + (val \<times> changeset)" where
  "get_this_walk h cs v [] = Inr (v, cs)"
| "get_this_walk h cs v (p # ps) =
     (if \<not> gettable v then Inr (VUndefined, cs)
      else
        (case get_asserts v p of
           Some e \<Rightarrow> Inl e
         | None \<Rightarrow>
             (case (case v of
                      VRelay r \<Rightarrow> valueFor (r @ [DOT_SEPARATOR] @ p) (h, cs)
                    | _ \<Rightarrow> Inr (js_prop h v p, cs)) of
                Inl e \<Rightarrow> Inl e
              | Inr (v', cs') \<Rightarrow>
                  if truthy v' \<and> truthy (js_prop h v' ''isDestroyed'') then Inr (VUndefined, cs')
                  else get_this_walk h cs' v' ps)))"

definition get_this :: "string \<Rightarrow> state \<Rightarrow> error + (val \<times> changeset)" where
  "get_this key s =
     (if hasThis key then
        Inl (AssertionFailed ([CHR 0x27] @ ''this'' @ [CHR 0x27] @ '' in paths is not supported''))
      else if key = [] then
        Inl (AssertionFailed ''Cannot call `Ember.get` with an empty string'')
      else if DOT_SEPARATOR \<in> set key then
        (if hd (split_dot key) = [] then
           Inl (AssertionFailed ''Cannot call `Ember.get` with an empty string'')
         else
           (case valueFor (hd (split_dot key)) s of
              Inl e \<Rightarrow> Inl e
            | Inr (v, cs') \<Rightarrow>
                if truthy v \<and> truthy (js_prop (fst s) v ''isDestroyed'')
                then Inr (VUndefined, cs')
                else get_this_walk (fst s) cs' v (tl (split_dot key))))
      else valueFor key s)"

subsection \<open>Writing\<close>

definition trigger :: "event \<Rightarrow> changeset \<Rightarrow> changeset" where
  "trigger ev cs = cs\<lparr>triggered := triggered cs @ [ev]\<rparr>"

text \<open>\<open>_validate(key, newValue, oldValue)\<close>.\<close>

definition p_validate :: "string \<Rightarrow> val \<Rightarrow> val \<Rightarrow> state \<Rightarrow> heap \<times> vresult" where
  "p_validate key newValue oldValue s =
     (case s of (h, cs) \<Rightarrow>
        (case VALIDATOR cs of
           Some validator \<Rightarrow>
             (case pureAssign h [VRef (CHANGES cs)] of (h1, c) \<Rightarrow>
              case validator h1 key newValue oldValue c (CONTENT cs) of (cells, res) \<Rightarrow>
                (h1 @ cells,
                 case res of
                   Now v \<Rightarrow> Now (if isPresent (h1 @ cells) v then v else VBool True)
                 | Later p \<Rightarrow> Later p))
         | None \<Rightarrow> (h, Now (VBool True))))"

text \<open>\<open>_setIsValidating(key, value)\<close>, on the object that counts the running
  validations.\<close>

definition p_setIsValidating :: "string \<Rightarrow> bool \<Rightarrow> state \<Rightarrow> error + state" where
  "p_setIsValidating key value s =
     (case s of (h, cs) \<Rightarrow>
        (let runningValidations = VRef (RUNNING_VALIDATIONS cs)
         in case ember_get h runningValidations key of
              Inl e \<Rightarrow> Inl e
            | Inr found \<Rightarrow>
                (case (if truthy found then found else VNum 0) of
                   VNum n \<Rightarrow>
                     (if value then
                        (case ember_set h runningValidations key (VNum (n + 1)) of
                           Inl e \<Rightarrow> Inl e | Inr h1 \<Rightarrow> Inr (h1, cs))
                      else if n = 1 then
                        (case js_delete h runningValidations key of
                           Inl e \<Rightarrow> Inl e | Inr h1 \<Rightarrow> Inr (h1, cs))
                      else
                        (case ember_set h runningValidations key (VNum (n - 1)) of
                           Inl e \<Rightarrow> Inl e | Inr h1 \<Rightarrow> Inr (h1, cs)))
                 | _ \<Rightarrow> Inl (Unmodelled ''a count that is not a number''))))"

text \<open>\<open>addError(key, options)\<close>. What \<open>deepSet\<close> returns, and so what \<open>addError\<close>
  returns, is not known and not modelled.\<close>

definition addError :: "string \<Rightarrow> val \<Rightarrow> state \<Rightarrow> error + state" where
  "addError key options s =
     (case s of (h, cs) \<Rightarrow>
        (let errors = ERRORS cs in
         case (if \<not> isObject h options then
                 (case get_this key (h, cs) of
                    Inl e \<Rightarrow> Inl e
                  | Inr (value, cs1) \<Rightarrow>
                      (case alloc h (PlainObj [(''value'', value), (''validation'', options)]) of
                         (h1, r) \<Rightarrow> Inr (h1, cs1, VRef r)))
               else Inr (h, cs, options)) of
           Inl e \<Rightarrow> Inl e
         | Inr (h1, cs1, options1) \<Rightarrow>
             (case p_deleteKey ChangesBuf key (h1, cs1) of
                Inl e \<Rightarrow> Inl e
              | Inr (h2, cs2) \<Rightarrow> Inr (deepSet h2 errors key options1, cs2))))"

text \<open>The assignment \<open>v.k = x\<close> in strict mode, and the spread \<open>[...v]\<close>.\<close>

definition js_assign :: "heap \<Rightarrow> val \<Rightarrow> string \<Rightarrow> val \<Rightarrow> error + heap" where
  "js_assign h v k x =
     (case v of
        VRef a \<Rightarrow>
          (case cell_at h a of
             Some (PlainObj ps) \<Rightarrow> Inr (put_prop h a k x)
           | Some (ArrayObj xs) \<Rightarrow> Inl (Unmodelled ''assignment to an array'')
           | None \<Rightarrow> Inl (Unmodelled ''dangling reference''))
      | VRelay r \<Rightarrow> Inl (Unmodelled ''assignment through a relay'')
      | _ \<Rightarrow> Inl (TypeError ''Cannot create property''))"

definition spread :: "heap \<Rightarrow> val \<Rightarrow> error + val list" where
  "spread h v =
     (case v of
        VRef a \<Rightarrow>
          (case cell_at h a of
             Some (ArrayObj xs) \<Rightarrow> Inr xs
           | _ \<Rightarrow> Inl (TypeError ''not iterable''))
      | VStr s \<Rightarrow> Inr (map (\<lambda>c. VStr [c]) s)
      | VRelay r \<Rightarrow> Inl (Unmodelled ''spread of a relay'')
      | _ \<Rightarrow> Inl (TypeError ''not iterable''))"

definition pushErrors :: "string \<Rightarrow> val list \<Rightarrow> state \<Rightarrow> error + state" where
  "pushErrors key newErrors s =
     (case s of (h, cs) \<Rightarrow>
        (let errors = VRef (ERRORS cs)
         in case ember_get h errors key of
              Inl e \<Rightarrow> Inl e
            | Inr found \<Rightarrow>
           case (if truthy found then (h, found)
                  else (case alloc h (ArrayObj []) of (h1, a) \<Rightarrow>
                        case alloc h1 (PlainObj [(''validation'', VRef a), (''value'', VNull)]) of
                          (h2, r) \<Rightarrow> (h2, VRef r))) of
              (h1, existingError) \<Rightarrow>
                (let validation = js_prop h1 existingError ''validation'';
                     value0 = js_prop h1 existingError ''value''
                 in case (if truthy value0 then Inr (value0, cs) else get_this key (h1, cs)) of
                      Inl e \<Rightarrow> Inl e
                    | Inr (value, cs1) \<Rightarrow>
                        (case (if \<not> isArray h1 validation \<and> isPresent h1 validation then
                                 (case alloc h1 (ArrayObj [validation]) of (h2, a) \<Rightarrow>
                                    js_assign h2 existingError ''validation'' (VRef a))
                               else Inr h1) of
                           Inl e \<Rightarrow> Inl e
                         | Inr h3 \<Rightarrow>
                             (case spread h3 (js_prop h3 existingError ''validation'') of
                                Inl e \<Rightarrow> Inl e
                              | Inr olds \<Rightarrow>
                                  (case alloc h3 (ArrayObj (olds @ newErrors)) of
                                     (h4, validation') \<Rightarrow>
                                       (case p_deleteKey ChangesBuf key (h4, cs1) of
                                          Inl e \<Rightarrow> Inl e
                                        | Inr (h5, cs5) \<Rightarrow>
                                            (case alloc h5 (PlainObj [(''value'', value),
                                                      (''validation'', VRef validation')]) of
                                               (h6, r) \<Rightarrow>
                                                 (case ember_set h6 errors key (VRef r) of
                                                    Inl e \<Rightarrow> Inl e
                                                  | Inr h7 \<Rightarrow> Inr (h7, cs5))))))))))"

text \<open>\<open>_setProperty(validation, { key, value, oldValue })\<close>. The last block of the
  accepting branch looks for the framework's metadata under the key \<open>__ember_meta__\<close> of
  the errors object.\<close>

definition isSingleValidationArray :: "heap \<Rightarrow> val \<Rightarrow> bool" where
  "isSingleValidationArray h validation =
     (isArray h validation \<and> js_prop h validation ''length'' = VNum 1 \<and>
      js_prop h validation ''0'' = VBool True)"

definition ember_meta_cleanup :: "string \<Rightarrow> state \<Rightarrow> error + state" where
  "ember_meta_cleanup key s =
     (case s of (h, cs) \<Rightarrow>
        (let errors = VRef (ERRORS cs);
             meta = js_prop h errors ''__ember_meta__''
         in if truthy meta \<and> truthy (js_prop h meta ''values'') then
              (case js_delete h (js_prop h meta ''values'') key of
                 Inl e \<Rightarrow> Inl e
               | Inr h1 \<Rightarrow> Inr (h1, cs))
            else Inr (h, cs)))"

definition p_setProperty :: "val \<Rightarrow> string \<Rightarrow> val \<Rightarrow> val \<Rightarrow> state \<Rightarrow> error + state" where
  "p_setProperty validation key value oldValue s =
     (case s of (h, cs) \<Rightarrow>
        (let changes = CHANGES cs in
         if validation = VBool True \<or> isSingleValidationArray h validation then
           (case p_deleteKey ErrorsBuf key (h, cs) of
              Inl e \<Rightarrow> Inl e
            | Inr (h1, cs1) \<Rightarrow>
                (case (if \<not> isEqual oldValue value then Inr (deepSet h1 changes key value, cs1)
                       else if hasOwnProperty h1 (VRef changes) key
                       then p_deleteKey ChangesBuf key (h1, cs1)
                       else Inr (h1, cs1)) of
                   Inl e \<Rightarrow> Inl e
                 | Inr s2 \<Rightarrow> ember_meta_cleanup key s2))
         else
           (case alloc h (PlainObj [(''value'', value), (''validation'', validation)]) of
              (h1, r) \<Rightarrow> addError key (VRef r) (h1, cs))))"

text \<open>
  \<open>validateAndSet(key, value)\<close>. With a validator result that is a promise the call
  returns while the validation is pending; the callback passed to \<open>then\<close> is
  \<open>settle_validation\<close>, which runs when and if the promise resolves.
\<close>

record pending =
  p_key :: string
  p_value :: val
  p_oldValue :: val
  p_promise :: settle

definition validateAndSet :: "string \<Rightarrow> val \<Rightarrow> state \<Rightarrow> error + (state \<times> pending option)" where
  "validateAndSet key value s =
     (case s of (h, cs) \<Rightarrow>
        (let content = VRef (CONTENT cs)
         in case ember_get h content key of
              Inl e \<Rightarrow> Inl e
            | Inr oldValue \<Rightarrow>
                if skipValidate cs then
                  (case p_setProperty (VBool True) key value VUndefined s of
                     Inl e \<Rightarrow> Inl e
                   | Inr s' \<Rightarrow> Inr (s', None))
                else
                  (case p_validate key value oldValue s of
                     (h1, Later promise) \<Rightarrow>
                       (case p_setIsValidating key True (h1, cs) of
                          Inl e \<Rightarrow> Inl e
                        | Inr (h2, cs2) \<Rightarrow>
                            Inr ((h2, trigger (BeforeValidation key) cs2),
                                 Some \<lparr>p_key = key, p_value = value, p_oldValue = oldValue,
                                        p_promise = promise\<rparr>))
                   | (h1, Now validation) \<Rightarrow>
                       (case p_setProperty validation key value oldValue
                               (h1, trigger (AfterValidation key)
                                      (trigger (BeforeValidation key) cs)) of
                          Inl e \<Rightarrow> Inl e
                        | Inr s' \<Rightarrow> Inr (s', None)))))"

definition settle_validation :: "pending \<Rightarrow> state \<Rightarrow> error + state" where
  "settle_validation p s =
     (case p_promise p of
        Resolves resolvedValidation \<Rightarrow>
          (case p_setIsValidating (p_key p) False s of
             Inl e \<Rightarrow> Inl e
           | Inr (h1, cs1) \<Rightarrow>
               p_setProperty resolvedValidation (p_key p) (p_value p) (p_oldValue p)
                 (h1, trigger (AfterValidation (p_key p)) cs1))
      | Rejects reason \<Rightarrow> Inr s
      | NeverSettles \<Rightarrow> Inr s)"

text \<open>\<open>validate(key)\<close>: nothing without a validation map; otherwise one
  \<open>validateAndSet\<close> with the current value for the key, or for every key of the map.\<close>

fun validate_all :: "string list \<Rightarrow> state \<Rightarrow> error + (state \<times> pending list)" where
  "validate_all [] s = Inr (s, [])"
| "validate_all (validationKey # ks) s =
     (case valueFor validationKey s of
        Inl e \<Rightarrow> Inl e
      | Inr (v, cs1) \<Rightarrow>
          (case validateAndSet validationKey v (fst s, cs1) of
             Inl e \<Rightarrow> Inl e
           | Inr (s1, p) \<Rightarrow>
               (case validate_all ks s1 of
                  Inl e \<Rightarrow> Inl e
                | Inr (s2, ps) \<Rightarrow> Inr (s2, (case p of None \<Rightarrow> [] | Some q \<Rightarrow> [q]) @ ps))))"

definition validate :: "string option \<Rightarrow> state \<Rightarrow> error + (state \<times> pending list)" where
  "validate key s =
     (if length (validationMap (snd s)) = 0 then Inr (s, [])
      else
        (case key of
           None \<Rightarrow> validate_all (validationMap (snd s)) s
         | Some k \<Rightarrow> validate_all [k] s))"

subsection \<open>Execute, save, rollback, merge, snapshot and restore\<close>

definition execute :: "state \<Rightarrow> error + state" where
  "execute s =
     (if isValid s \<and> isDirty s then
        (let content = VRef (CONTENT (snd s));
             changes = VRef (CHANGES (snd s))
         in case setProperties (fst s) content changes of
              Inl e \<Rightarrow> Inl e
            | Inr h1 \<Rightarrow> Inr (h1, snd s))
      else Inr s)"

definition rollback :: "state \<Rightarrow> state" where
  "rollback s =
     (case s of (h, cs) \<Rightarrow>
      case alloc h (PlainObj []) of (h1, c) \<Rightarrow>
      case alloc h1 (PlainObj []) of (h2, e) \<Rightarrow>
        (h2, cs\<lparr>CHANGES := c, ERRORS := e\<rparr>))"

text \<open>
  \<open>save(options)\<close>. The first parameter is the \<open>save\<close> function of the content, if it has
  one. The promise that \<open>save\<close> returns is given with the state in which it settles: the
  callback with the rollback runs only when the promise of the content is fulfilled.
\<close>

datatype saved = ThisChangeset | SaveResult val

datatype 'a promise = Fulfilled 'a | Rejected val | Unsettled

definition save ::
  "(heap \<Rightarrow> val \<Rightarrow> settle) option \<Rightarrow> val \<Rightarrow> state \<Rightarrow> error + (state \<times> saved promise)" where
  "save content_save options s =
     (case execute s of
        Inl e \<Rightarrow> Inl e
      | Inr s1 \<Rightarrow>
          (case content_save of
             Some f \<Rightarrow>
               (case f (fst s1) options of
                  Resolves result \<Rightarrow> Inr (rollback s1, Fulfilled (SaveResult result))
                | Rejects reason \<Rightarrow> Inr (s1, Rejected reason)
                | NeverSettles \<Rightarrow> Inr (s1, Unsettled))
           | None \<Rightarrow> Inr (rollback s1, Fulfilled ThisChangeset)))"

datatype merge_arg = AChangeset changeset | NotAChangeset val

datatype merged = This | New changeset

definition merge :: "merge_arg \<Rightarrow> state \<Rightarrow> error + (heap \<times> merged)" where
  "merge arg s =
     (case s of (h, this) \<Rightarrow>
        (case arg of
           NotAChangeset v \<Rightarrow> Inl (AssertionFailed ''Cannot merge with a non-changeset'')
         | AChangeset other \<Rightarrow>
             if CONTENT other \<noteq> CONTENT this
             then Inl (AssertionFailed ''Cannot merge with a changeset of different content'')
             else if isPristine (h, this) \<and> isPristine (h, other) then Inr (h, This)
             else
               (let changesA = VRef (CHANGES this);
                    changesB = VRef (CHANGES other);
                    errorsA = VRef (ERRORS this);
                    errorsB = VRef (ERRORS other)
                in case new_changeset h (CONTENT this) (VALIDATOR this) [] False of
                     Inl e \<Rightarrow> Inl e
                   | Inr (h1, newChangeset) \<Rightarrow>
                       (case objectWithout h1 (object_keys h1 changesB) errorsA of
                          (h2, newErrors) \<Rightarrow>
                        case objectWithout h2 (object_keys h2 errorsB) changesA of
                          (h3, newChanges) \<Rightarrow>
                        case pureAssign h3 [VRef newChanges, changesB] of
                          (h4, mergedChanges) \<Rightarrow>
                        case pureAssign h4 [VRef newErrors, errorsB] of
                          (h5, mergedErrors) \<Rightarrow>
                          Inr (h5, New (newChangeset\<lparr>CHANGES := mergedChanges,
                                                      ERRORS := mergedErrors\<rparr>))))))"

record snap =
  changes :: addr
  errors :: addr

definition snapshot :: "state \<Rightarrow> heap \<times> snap" where
  "snapshot s =
     (case s of (h, cs) \<Rightarrow>
      case pureAssign h [VRef (CHANGES cs)] of (h1, c) \<Rightarrow>
      case pureAssign h1 [VRef (ERRORS cs)] of (h2, e) \<Rightarrow>
        (h2, \<lparr>changes = c, errors = e\<rparr>))"

definition restore :: "snap \<Rightarrow> state \<Rightarrow> state" where
  "restore sn s = (case s of (h, cs) \<Rightarrow> (h, cs\<lparr>CHANGES := changes sn, ERRORS := errors sn\<rparr>))"


section \<open>Basic facts\<close>

subsection \<open>The store and plain objects\<close>

lemma cell_at_less: "cell_at h a = Some c \<Longrightarrow> a < length h"
  by (simp add: cell_at_def split: if_splits)

lemma cell_at_append: "a < length h \<Longrightarrow> cell_at (h @ ext) a = cell_at h a"
  by (simp add: cell_at_def nth_append)

lemma cell_at_mono: "cell_at h a = Some c \<Longrightarrow> cell_at (h @ ext) a = Some c"
  by (simp add: cell_at_def nth_append split: if_splits)

lemma cell_at_append_new: "cell_at (h @ [c]) (length h) = Some c"
  by (simp add: cell_at_def)

lemma cell_at_update: "cell_at (h[a := c]) b = (if b = a \<and> a < length h then Some c else cell_at h b)"
  by (simp add: cell_at_def)

lemma update_same: "cell_at h a = Some c \<Longrightarrow> h[a := c] = h"
  by (auto simp: cell_at_def split: if_splits)

lemma own_enumerable_plain: "cell_at h a = Some (PlainObj ps) \<Longrightarrow> own_enumerable h (VRef a) = ps"
  by (simp add: own_enumerable_def)

lemma object_keys_plain: "cell_at h a = Some (PlainObj ps) \<Longrightarrow> object_keys h (VRef a) = map fst ps"
  by (simp add: object_keys_def own_enumerable_plain)

lemma js_prop_plain: "cell_at h a = Some (PlainObj ps) \<Longrightarrow> js_prop h (VRef a) k = lookup ps k"
  by (simp add: js_prop_def)

lemma hasOwnProperty_plain:
  "cell_at h a = Some (PlainObj ps) \<Longrightarrow> hasOwnProperty h (VRef a) k = (k \<in> fst ` set ps)"
  by (simp add: hasOwnProperty_def object_keys_plain)

lemma js_delete_plain:
  "cell_at h a = Some (PlainObj ps) \<Longrightarrow> js_delete h (VRef a) k = Inr (h[a := PlainObj (AList.delete k ps)])"
  by (simp add: js_delete_def)

lemma put_prop_plain:
  "cell_at h a = Some (PlainObj ps) \<Longrightarrow> put_prop h a k v = h[a := PlainObj (AList.update k v ps)]"
  by (simp add: put_prop_def)

lemma isEmpty_plain: "cell_at h a = Some (PlainObj ps) \<Longrightarrow> isEmpty h (VRef a) = collection_empty ps"
  by (simp add: isEmpty_def)

lemma assign_props_distinct: "distinct (map fst ps) \<Longrightarrow> assign_props [] ps = ps"
proof -
  have "distinct (map fst (acc @ ps)) \<Longrightarrow>
        foldl (\<lambda>acc kv. AList.update (fst kv) (snd kv) acc) acc ps = acc @ ps" for acc :: props
  proof (induction ps arbitrary: acc)
    case Nil
    then show ?case by simp
  next
    case (Cons p ps)
    have "AList.update (fst p) (snd p) acc = acc @ [p]"
      using Cons.prems by (induction acc) auto
    with Cons show ?case by simp
  qed
  from this [of "[]"] show "distinct (map fst ps) \<Longrightarrow> assign_props [] ps = ps"
    by (simp add: assign_props_def)
qed

lemma forEach_delete_body_flat:
  "DOT_SEPARATOR \<notin> set elem \<Longrightarrow> cell_at h t = Some (PlainObj ps) \<Longrightarrow>
   forEach (delete_body t elem) props h =
     Inr (h[t := PlainObj (if elem \<in> set props then AList.delete elem ps else ps)])"
proof (induction props arbitrary: h ps)
  case Nil
  then show ?case by (simp add: update_same)
next
  case (Cons p props)
  have lt: "t < length h" using Cons.prems(2) by (rule cell_at_less)
  show ?case
  proof (cases "elem = p \<and> p \<in> fst ` set ps")
    case True
    have step: "delete_body t elem h p = Inr (h[t := PlainObj (AList.delete elem ps)])"
      using True Cons.prems by (simp add: delete_body_def hasOwnProperty_plain js_delete_plain)
    have c': "cell_at (h[t := PlainObj (AList.delete elem ps)]) t = Some (PlainObj (AList.delete elem ps))"
      using lt by (simp add: cell_at_update)
    show ?thesis
      using True Cons.IH [OF Cons.prems(1) c'] step by (simp add: AList.delete_idem)
  next
    case False
    have step: "delete_body t elem h p = Inr h"
      using False Cons.prems by (auto simp: delete_body_def hasOwnProperty_plain)
    have "elem = p \<Longrightarrow> AList.delete elem ps = ps"
      using False by (simp add: AList.delete_id)
    then show ?thesis
      using Cons.IH [OF Cons.prems] step False by (auto simp: AList.delete_id)
  qed
qed


definition without_key :: "string \<Rightarrow> props \<Rightarrow> props" where
  "without_key k ps = AList.delete k (assign_props [] ps)"

lemma keys_assign_props: "fst ` set (assign_props acc ps) = fst ` set acc \<union> fst ` set ps"
  unfolding assign_props_def
  by (induction ps arbitrary: acc) (auto simp: AList.dom_update)

lemma keys_delete: "fst ` set (AList.delete k al) = fst ` set al - {k}"
proof -
  have "fst ` set (AList.delete k al) = set (map fst (AList.delete k al))" by simp
  also have "\<dots> = set (removeAll k (map fst al))" by (simp only: AList.delete_keys)
  finally show ?thesis by simp
qed

lemma keys_without_key: "fst ` set (without_key k ps) = fst ` set ps - {k}"
  by (simp add: without_key_def keys_delete keys_assign_props)

lemma pureAssign_single:
  "cell_at h a = Some (PlainObj ps) \<Longrightarrow>
   pureAssign h [VRef a] = (h @ [PlainObj (assign_props [] ps)], length h)"
  by (simp add: pureAssign_def alloc_def own_enumerable_plain)

lemma deleteKeys_flat:
  assumes "DOT_SEPARATOR \<notin> set k" and "cell_at h a = Some (PlainObj ps)"
  shows "deleteKeysFromObject h (VRef a) (OneKey k) =
           (if collection_empty (without_key k ps)
            then Inr (h @ [PlainObj (without_key k ps), PlainObj []], Suc (length h))
            else Inr (h @ [PlainObj (without_key k ps)], length h))"
proof -
  let ?ps0 = "assign_props [] ps"
  let ?h0 = "h @ [PlainObj ?ps0]"
  have c0: "cell_at ?h0 (length h) = Some (PlainObj ?ps0)"
    by (simp add: cell_at_def)
  have del: "(if k \<in> set (map fst ?ps0) then AList.delete k ?ps0 else ?ps0) = without_key k ps"
    by (simp add: without_key_def AList.delete_id)
  have loop: "forEach (delete_body (length h) k) (object_keys ?h0 (VRef (length h))) ?h0 =
                Inr (h @ [PlainObj (without_key k ps)])"
    using forEach_delete_body_flat [OF assms(1) c0, of "map fst ?ps0"] del
    by (simp add: object_keys_plain [OF c0])
  have c5: "cell_at (h @ [PlainObj (without_key k ps)]) (length h) = Some (PlainObj (without_key k ps))"
    by (simp add: cell_at_def)
  show ?thesis
    by (simp add: deleteKeysFromObject_unfold pureAssign_single [OF assms(2)] keysToDelete_def
        loop isEmpty_plain [OF c5] alloc_def)
qed


definition remaining :: "string \<Rightarrow> props \<Rightarrow> props" where
  "remaining k ps = (if collection_empty (without_key k ps) then [] else without_key k ps)"

definition deleted_cells :: "string \<Rightarrow> props \<Rightarrow> cell list" where
  "deleted_cells k ps =
     (if collection_empty (without_key k ps) then [PlainObj (without_key k ps), PlainObj []]
      else [PlainObj (without_key k ps)])"

definition deleted_at :: "heap \<Rightarrow> string \<Rightarrow> props \<Rightarrow> addr" where
  "deleted_at h k ps = (if collection_empty (without_key k ps) then Suc (length h) else length h)"

lemma keys_remaining: "fst ` set (remaining k ps) \<subseteq> fst ` set ps - {k}"
  by (simp add: remaining_def keys_without_key)

lemma deleted_at_bounds:
  "length h \<le> deleted_at h k ps" "deleted_at h k ps < length (h @ deleted_cells k ps)"
  by (simp_all add: deleted_at_def deleted_cells_def)

lemma cell_at_deleted:
  "cell_at (h @ deleted_cells k ps) (deleted_at h k ps) = Some (PlainObj (remaining k ps))"
  by (simp add: cell_at_def deleted_at_def deleted_cells_def remaining_def nth_append)

lemma p_deleteKey_flat:
  assumes "DOT_SEPARATOR \<notin> set k" and "cell_at h (get_buffer b cs) = Some (PlainObj ps)"
  shows "p_deleteKey b k (h, cs) =
           Inr (h @ deleted_cells k ps, set_buffer b (deleted_at h k ps) cs)"
  using cell_at_less [OF assms(2)]
  by (simp add: p_deleteKey_def deleteKeys_flat [OF assms] isEqual_def deleted_cells_def
      deleted_at_def)

lemma split_dot_plain: "DOT_SEPARATOR \<notin> set s \<Longrightarrow> split_dot s = [s]"
  by (induction s) (auto simp: DOT_SEPARATOR_def)

lemma deepSet_flat:
  "DOT_SEPARATOR \<notin> set k \<Longrightarrow> cell_at h a = Some (PlainObj ps) \<Longrightarrow>
   deepSet h a k v = h[a := PlainObj (AList.update k v ps)]"
  by (simp add: deepSet_def split_dot_plain put_prop_plain)

definition accepted :: "heap \<Rightarrow> val \<Rightarrow> bool" where
  "accepted h validation = (validation = VBool True \<or> isSingleValidationArray h validation)"

lemma lookup_absent: "k \<notin> fst ` set ps \<Longrightarrow> lookup ps k = VUndefined"
  using map_of_eq_None_iff [of ps k] by (simp add: lookup_def)

lemma ember_meta_cleanup_none:
  "cell_at h (ERRORS cs) = Some (PlainObj qs) \<Longrightarrow> ''__ember_meta__'' \<notin> fst ` set qs \<Longrightarrow>
   ember_meta_cleanup k (h, cs) = Inr (h, cs)"
  by (simp add: ember_meta_cleanup_def js_prop_plain lookup_absent truthy_def)

lemma p_setProperty_accept_differs:
  assumes flat: "DOT_SEPARATOR \<notin> set k"
    and c: "cell_at h (CHANGES cs) = Some (PlainObj ps)"
    and e: "cell_at h (ERRORS cs) = Some (PlainObj qs)"
    and meta: "''__ember_meta__'' \<notin> fst ` set qs"
    and acc: "accepted h validation"
    and ne: "old \<noteq> v"
  shows "p_setProperty validation k v old (h, cs) =
           Inr ((h @ deleted_cells k qs)[CHANGES cs := PlainObj (AList.update k v ps)],
                cs\<lparr>ERRORS := deleted_at h k qs\<rparr>)"
proof -
  let ?h1 = "h @ deleted_cells k qs"
  let ?cs1 = "cs\<lparr>ERRORS := deleted_at h k qs\<rparr>"
  let ?h2 = "?h1[CHANGES cs := PlainObj (AList.update k v ps)]"
  have lt: "CHANGES cs < length h" using c by (rule cell_at_less)
  have del: "p_deleteKey ErrorsBuf k (h, cs) = Inr (?h1, ?cs1)"
    using p_deleteKey_flat [OF flat, of h ErrorsBuf cs qs] e
    by (simp add: get_buffer_def set_buffer_def)
  have c1: "cell_at ?h1 (CHANGES cs) = Some (PlainObj ps)"
    using c lt by (simp add: cell_at_append)
  have ds: "deepSet ?h1 (CHANGES cs) k v = ?h2"
    by (rule deepSet_flat [OF flat c1])
  have "deleted_at h k qs \<noteq> CHANGES cs"
    using lt deleted_at_bounds(1) [of h k qs] by simp
  then have e2: "cell_at ?h2 (ERRORS ?cs1) = Some (PlainObj (remaining k qs))"
    using cell_at_deleted [of h k qs] by (simp add: cell_at_update)
  have "''__ember_meta__'' \<notin> fst ` set (remaining k qs)"
    using meta keys_remaining [of k qs] by blast
  then have cl: "ember_meta_cleanup k (?h2, ?cs1) = Inr (?h2, ?cs1)"
    using e2 by (rule ember_meta_cleanup_none [rotated])
  show ?thesis
    using acc ne by (simp add: p_setProperty_def accepted_def del ds cl isEqual_def)
qed


lemma p_setProperty_accept_equal:
  assumes flat: "DOT_SEPARATOR \<notin> set k"
    and c: "cell_at h (CHANGES cs) = Some (PlainObj ps)"
    and e: "cell_at h (ERRORS cs) = Some (PlainObj qs)"
    and meta: "''__ember_meta__'' \<notin> fst ` set qs"
    and acc: "accepted h validation"
  shows "p_setProperty validation k v v (h, cs) =
           (if k \<in> fst ` set ps
            then Inr (h @ deleted_cells k qs @ deleted_cells k ps,
                      cs\<lparr>ERRORS := deleted_at h k qs,
                         CHANGES := deleted_at (h @ deleted_cells k qs) k ps\<rparr>)
            else Inr (h @ deleted_cells k qs, cs\<lparr>ERRORS := deleted_at h k qs\<rparr>))"
proof -
  let ?h1 = "h @ deleted_cells k qs"
  let ?cs1 = "cs\<lparr>ERRORS := deleted_at h k qs\<rparr>"
  have lt: "CHANGES cs < length h" using c by (rule cell_at_less)
  have del: "p_deleteKey ErrorsBuf k (h, cs) = Inr (?h1, ?cs1)"
    using p_deleteKey_flat [OF flat, of h ErrorsBuf cs qs] e
    by (simp add: get_buffer_def set_buffer_def)
  have c1: "cell_at ?h1 (CHANGES cs) = Some (PlainObj ps)"
    using c lt by (simp add: cell_at_append)
  have e1: "cell_at ?h1 (ERRORS ?cs1) = Some (PlainObj (remaining k qs))"
    using cell_at_deleted [of h k qs] by simp
  have nometa: "''__ember_meta__'' \<notin> fst ` set (remaining k qs)"
    using meta keys_remaining [of k qs] by blast
  have own: "hasOwnProperty ?h1 (VRef (CHANGES cs)) k = (k \<in> fst ` set ps)"
    by (rule hasOwnProperty_plain [OF c1])
  show ?thesis
  proof (cases "k \<in> fst ` set ps")
    case True
    let ?h2 = "?h1 @ deleted_cells k ps"
    let ?cs2 = "?cs1\<lparr>CHANGES := deleted_at ?h1 k ps\<rparr>"
    have del2: "p_deleteKey ChangesBuf k (?h1, ?cs1) = Inr (?h2, ?cs2)"
      using p_deleteKey_flat [OF flat, of ?h1 ChangesBuf ?cs1 ps] c1
      by (simp add: get_buffer_def set_buffer_def)
    have e2: "cell_at ?h2 (ERRORS ?cs2) = Some (PlainObj (remaining k qs))"
      using cell_at_mono [OF e1, of "deleted_cells k ps"] by simp
    have cl: "ember_meta_cleanup k (?h2, ?cs2) = Inr (?h2, ?cs2)"
      using e2 nometa by (rule ember_meta_cleanup_none)
    show ?thesis
      using acc True cl
      by (simp add: p_setProperty_def accepted_def del own del2 isEqual_def)
  next
    case False
    have cl: "ember_meta_cleanup k (?h1, ?cs1) = Inr (?h1, ?cs1)"
      using e1 nometa by (rule ember_meta_cleanup_none)
    show ?thesis
      using acc False
      by (simp add: p_setProperty_def accepted_def del own cl isEqual_def)
  qed
qed

definition error_record :: "val \<Rightarrow> val \<Rightarrow> cell" where
  "error_record value validation = PlainObj [(''value'', value), (''validation'', validation)]"

lemma p_setProperty_reject:
  assumes flat: "DOT_SEPARATOR \<notin> set k"
    and c: "cell_at h (CHANGES cs) = Some (PlainObj ps)"
    and e: "cell_at h (ERRORS cs) = Some (PlainObj qs)"
    and rej: "\<not> accepted h validation"
  shows "p_setProperty validation k v old (h, cs) =
           Inr ((h @ error_record v validation # deleted_cells k ps)
                  [ERRORS cs := PlainObj (AList.update k (VRef (length h)) qs)],
                cs\<lparr>CHANGES := deleted_at (h @ [error_record v validation]) k ps\<rparr>)"
proof -
  let ?r = "error_record v validation"
  let ?h1 = "h @ [?r]"
  let ?h2 = "?h1 @ deleted_cells k ps"
  let ?cs2 = "cs\<lparr>CHANGES := deleted_at ?h1 k ps\<rparr>"
  have ltc: "CHANGES cs < length h" using c by (rule cell_at_less)
  have lte: "ERRORS cs < length h" using e by (rule cell_at_less)
  have obj: "isObject ?h1 (VRef (length h))"
    by (simp add: isObject_def cell_at_def error_record_def)
  have c1: "cell_at ?h1 (CHANGES cs) = Some (PlainObj ps)"
    using c ltc by (simp add: cell_at_append)
  have del: "p_deleteKey ChangesBuf k (?h1, cs) = Inr (?h2, ?cs2)"
    using p_deleteKey_flat [OF flat, of ?h1 ChangesBuf cs ps] c1
    by (simp add: get_buffer_def set_buffer_def)
  have e2: "cell_at ?h2 (ERRORS cs) = Some (PlainObj qs)"
    using e lte by (simp add: cell_at_def nth_append)
  have ds: "deepSet ?h2 (ERRORS cs) k (VRef (length h)) =
              ?h2[ERRORS cs := PlainObj (AList.update k (VRef (length h)) qs)]"
    by (rule deepSet_flat [OF flat e2])
  have add: "addError k (VRef (length h)) (?h1, cs) =
               Inr (?h2[ERRORS cs := PlainObj (AList.update k (VRef (length h)) qs)], ?cs2)"
    using obj ds by (simp add: addError_def del)
  show ?thesis
    using rej add
    by (simp add: p_setProperty_def accepted_def alloc_def error_record_def)
qed

subsection \<open>Writing at a key without separator\<close>

lemma string_of_nat_0: "string_of_nat 0 = ''0''"
  by (simp add: digit_char_def)

text \<open>The validations that \<open>_setProperty\<close> takes for \<open>[true]\<close>: the array itself, and a
  plain object that \<open>isArray\<close> takes for an array, with the length \<open>1\<close> and \<open>true\<close> at
  the index \<open>0\<close>.\<close>

definition array_like_true :: "props \<Rightarrow> bool" where
  "array_like_true xs =
     (\<not> truthy (lookup xs ''setInterval'') \<and> lookup xs ''length'' = VNum 1 \<and>
      lookup xs ''0'' = VBool True)"

lemma isSingleValidationArray_iff:
  "isSingleValidationArray h r \<longleftrightarrow>
     (\<exists>a. r = VRef a \<and>
        (cell_at h a = Some (ArrayObj [VBool True]) \<or>
         (\<exists>xs. cell_at h a = Some (PlainObj xs) \<and> array_like_true xs)))"
proof
  assume s: "isSingleValidationArray h r"
  then obtain a c where r: "r = VRef a" and c: "cell_at h a = Some c"
    by (auto simp: isSingleValidationArray_def isArray_def split: val.splits option.splits)
  show "\<exists>a. r = VRef a \<and>
          (cell_at h a = Some (ArrayObj [VBool True]) \<or>
           (\<exists>xs. cell_at h a = Some (PlainObj xs) \<and> array_like_true xs))"
  proof (cases c)
    case (ArrayObj xs)
    from s r c ArrayObj have len: "length xs = 1"
      by (simp add: isSingleValidationArray_def js_prop_def)
    then obtain x where xs: "xs = [x]" by (cases xs) auto
    from s r c ArrayObj xs have "x = VBool True"
      by (simp add: isSingleValidationArray_def js_prop_def index_props_def lookup_def
          digit_char_def)
    with r c ArrayObj xs show ?thesis by simp
  next
    case (PlainObj xs)
    from s r c PlainObj have "array_like_true xs"
      by (simp add: isSingleValidationArray_def isArray_def js_prop_def array_like_true_def)
    with r c PlainObj show ?thesis by simp
  qed
next
  assume "\<exists>a. r = VRef a \<and>
          (cell_at h a = Some (ArrayObj [VBool True]) \<or>
           (\<exists>xs. cell_at h a = Some (PlainObj xs) \<and> array_like_true xs))"
  then show "isSingleValidationArray h r"
    by (auto simp: isSingleValidationArray_def isArray_def js_prop_def index_props_def lookup_def
        digit_char_def array_like_true_def)
qed

lemma p_validate_Some:
  assumes "VALIDATOR cs = Some f"
    and "cell_at h (CHANGES cs) = Some (PlainObj ps)"
    and "f (h @ [PlainObj (assign_props [] ps)]) k v old (length h) (CONTENT cs) = (cells, res)"
  shows "p_validate k v old (h, cs) =
           (h @ PlainObj (assign_props [] ps) # cells,
            case res of
              Now r \<Rightarrow> Now (if isPresent (h @ PlainObj (assign_props [] ps) # cells) r then r
                            else VBool True)
            | Later p \<Rightarrow> Later p)"
  using assms by (simp add: p_validate_def pureAssign_single split: vresult.splits)

lemma get_asserts_flat:
  "k \<noteq> [] \<Longrightarrow> DOT_SEPARATOR \<notin> set k \<Longrightarrow> get_asserts (VRef a) k = None"
proof -
  assume k: "k \<noteq> []" and d: "DOT_SEPARATOR \<notin> set k"
  have "\<not> hasThis k"
  proof
    assume "hasThis k"
    then have t: "take 5 k = ''this.''" by (simp add: hasThis_def)
    have "CHR ''.'' \<in> set (take 5 k)" by (simp add: t)
    then have "CHR ''.'' \<in> set k" by (rule in_set_takeD)
    with d show False by (simp add: DOT_SEPARATOR_def)
  qed
  with k show ?thesis by (simp add: get_asserts_def isNone_def)
qed

lemma ember_get_flat:
  "k \<noteq> [] \<Longrightarrow> DOT_SEPARATOR \<notin> set k \<Longrightarrow> ember_get h (VRef a) k = Inr (js_prop h (VRef a) k)"
  by (simp add: ember_get_def get_asserts_flat)

lemma validateAndSet_sync:
  assumes "\<not> skipValidate cs"
    and "ember_get h (VRef (CONTENT cs)) k = Inr old"
    and "p_validate k v old (h, cs) = (h1, Now validation)"
  shows "validateAndSet k v (h, cs) =
           (case p_setProperty validation k v old
                   (h1, trigger (AfterValidation k) (trigger (BeforeValidation k) cs)) of
              Inl e \<Rightarrow> Inl e
            | Inr s' \<Rightarrow> Inr (s', None))"
  using assms by (simp add: validateAndSet_def)

definition changes_after :: "bool \<Rightarrow> string \<Rightarrow> val \<Rightarrow> val \<Rightarrow> props \<Rightarrow> props" where
  "changes_after acc k v old ps =
     (if acc then
        (if old \<noteq> v then AList.update k v ps
         else if k \<in> fst ` set ps then remaining k ps else ps)
      else remaining k ps)"

definition errors_after :: "bool \<Rightarrow> string \<Rightarrow> addr \<Rightarrow> props \<Rightarrow> props" where
  "errors_after acc k r qs = (if acc then remaining k qs else AList.update k (VRef r) qs)"

definition frame_except :: "addr set \<Rightarrow> heap \<Rightarrow> heap \<Rightarrow> bool" where
  "frame_except A h h' = (length h \<le> length h' \<and> (\<forall>a<length h. a \<notin> A \<longrightarrow> h' ! a = h ! a))"

definition moved :: "addr \<Rightarrow> addr \<Rightarrow> heap \<Rightarrow> heap \<Rightarrow> bool" where
  "moved a a' h h' = (a' < length h' \<and> (a' = a \<or> length h \<le> a'))"

lemma frame_except_append: "frame_except A h (h @ ext)"
  by (simp add: frame_except_def nth_append)

lemma frame_except_update:
  assumes "a \<in> A"
  shows "frame_except A h ((h @ ext)[a := c])"
  unfolding frame_except_def
proof (intro conjI allI impI)
  show "length h \<le> length ((h @ ext)[a := c])" by simp
next
  fix b
  assume b: "b < length h" "b \<notin> A"
  with assms have "a \<noteq> b" by auto
  then show "(h @ ext)[a := c] ! b = h ! b" using b by (simp add: nth_append)
qed

lemma p_setProperty_flat:
  assumes flat: "DOT_SEPARATOR \<notin> set k"
    and c: "cell_at h (CHANGES cs) = Some (PlainObj ps)"
    and e: "cell_at h (ERRORS cs) = Some (PlainObj qs)"
    and meta: "''__ember_meta__'' \<notin> fst ` set qs"
  shows "\<exists>h' cs'. p_setProperty validation k v old (h, cs) = Inr (h', cs') \<and>
           cell_at h' (CHANGES cs') = Some (PlainObj (changes_after (accepted h validation) k v old ps)) \<and>
           cell_at h' (ERRORS cs') =
             Some (PlainObj (errors_after (accepted h validation) k (length h) qs)) \<and>
           (accepted h validation \<or> cell_at h' (length h) = Some (error_record v validation)) \<and>
           frame_except {CHANGES cs, ERRORS cs} h h' \<and>
           moved (CHANGES cs) (CHANGES cs') h h' \<and> moved (ERRORS cs) (ERRORS cs') h h' \<and>
           cs' = cs\<lparr>CHANGES := CHANGES cs', ERRORS := ERRORS cs'\<rparr>"
proof -
  have ltc: "CHANGES cs < length h" using c by (rule cell_at_less)
  have lte: "ERRORS cs < length h" using e by (rule cell_at_less)
  show ?thesis
  proof (cases "accepted h validation")
    case acc: True
    show ?thesis
    proof (cases "old = v")
      case False
      let ?h' = "(h @ deleted_cells k qs)[CHANGES cs := PlainObj (AList.update k v ps)]"
      let ?cs' = "cs\<lparr>ERRORS := deleted_at h k qs\<rparr>"
      have eq: "p_setProperty validation k v old (h, cs) = Inr (?h', ?cs')"
        using False by (intro p_setProperty_accept_differs [OF flat c e meta acc]) simp
      have ne: "deleted_at h k qs \<noteq> CHANGES cs"
        using ltc deleted_at_bounds(1) [of h k qs] by simp
      have c': "cell_at ?h' (CHANGES ?cs') = Some (PlainObj (AList.update k v ps))"
        using ltc by (simp add: cell_at_update)
      have e': "cell_at ?h' (ERRORS ?cs') = Some (PlainObj (remaining k qs))"
        using ne cell_at_deleted [of h k qs] by (simp add: cell_at_update)
      have fr: "frame_except {CHANGES cs, ERRORS cs} h ?h'"
        by (rule frame_except_update) simp
      have mv: "moved (CHANGES cs) (CHANGES ?cs') h ?h'" "moved (ERRORS cs) (ERRORS ?cs') h ?h'"
        using ltc deleted_at_bounds [of h k qs] by (simp_all add: moved_def)
      show ?thesis
        using eq c' e' fr mv acc False
        by (intro exI [of _ ?h'] exI [of _ ?cs']) (simp add: changes_after_def errors_after_def)
    next
      case True
      show ?thesis
      proof (cases "k \<in> fst ` set ps")
        case own: True
        let ?h1 = "h @ deleted_cells k qs"
        let ?h' = "h @ deleted_cells k qs @ deleted_cells k ps"
        let ?cs' = "cs\<lparr>ERRORS := deleted_at h k qs, CHANGES := deleted_at ?h1 k ps\<rparr>"
        have eq: "p_setProperty validation k v old (h, cs) = Inr (?h', ?cs')"
          using True own p_setProperty_accept_equal [OF flat c e meta acc, of v] by simp
        have c': "cell_at ?h' (CHANGES ?cs') = Some (PlainObj (remaining k ps))"
          using cell_at_deleted [of ?h1 k ps] by simp
        have e': "cell_at ?h' (ERRORS ?cs') = Some (PlainObj (remaining k qs))"
          using cell_at_mono [OF cell_at_deleted [of h k qs], of "deleted_cells k ps"] by simp
        have fr: "frame_except {CHANGES cs, ERRORS cs} h ?h'"
          by (rule frame_except_append)
        have mv: "moved (CHANGES cs) (CHANGES ?cs') h ?h'" "moved (ERRORS cs) (ERRORS ?cs') h ?h'"
          using deleted_at_bounds [of h k qs] deleted_at_bounds [of ?h1 k ps]
          by (simp_all add: moved_def)
        show ?thesis
          using eq c' e' fr mv acc True own
          by (intro exI [of _ ?h'] exI [of _ ?cs']) (simp add: changes_after_def errors_after_def)
      next
        case own: False
        let ?h' = "h @ deleted_cells k qs"
        let ?cs' = "cs\<lparr>ERRORS := deleted_at h k qs\<rparr>"
        have eq: "p_setProperty validation k v old (h, cs) = Inr (?h', ?cs')"
          using True own p_setProperty_accept_equal [OF flat c e meta acc, of v] by simp
        have c': "cell_at ?h' (CHANGES ?cs') = Some (PlainObj ps)"
          using cell_at_mono [OF c] by simp
        have e': "cell_at ?h' (ERRORS ?cs') = Some (PlainObj (remaining k qs))"
          using cell_at_deleted [of h k qs] by simp
        have fr: "frame_except {CHANGES cs, ERRORS cs} h ?h'"
          by (rule frame_except_append)
        have mv: "moved (CHANGES cs) (CHANGES ?cs') h ?h'" "moved (ERRORS cs) (ERRORS ?cs') h ?h'"
          using ltc deleted_at_bounds [of h k qs] by (simp_all add: moved_def)
        show ?thesis
          using eq c' e' fr mv acc True own
          by (intro exI [of _ ?h'] exI [of _ ?cs']) (simp add: changes_after_def errors_after_def)
      qed
    qed
  next
    case rej: False
    let ?r = "error_record v validation"
    let ?h' = "(h @ ?r # deleted_cells k ps)[ERRORS cs := PlainObj (AList.update k (VRef (length h)) qs)]"
    let ?cs' = "cs\<lparr>CHANGES := deleted_at (h @ [?r]) k ps\<rparr>"
    have eq: "p_setProperty validation k v old (h, cs) = Inr (?h', ?cs')"
      by (rule p_setProperty_reject [OF flat c e rej])
    have b: "length (h @ [?r]) \<le> deleted_at (h @ [?r]) k ps"
      by (rule deleted_at_bounds)
    have c': "cell_at ?h' (CHANGES ?cs') = Some (PlainObj (remaining k ps))"
      using cell_at_deleted [of "h @ [?r]" k ps] b lte by (simp add: cell_at_update)
    have e': "cell_at ?h' (ERRORS ?cs') = Some (PlainObj (AList.update k (VRef (length h)) qs))"
      using lte by (simp add: cell_at_update)
    have r': "cell_at ?h' (length h) = Some ?r"
      using lte by (simp add: cell_at_update cell_at_def nth_append)
    have fr: "frame_except {CHANGES cs, ERRORS cs} h ?h'"
      using frame_except_update [of "ERRORS cs" _ h "?r # deleted_cells k ps"] by simp
    have mv: "moved (CHANGES cs) (CHANGES ?cs') h ?h'" "moved (ERRORS cs) (ERRORS ?cs') h ?h'"
      using lte b deleted_at_bounds(2) [of "h @ [?r]" k ps] by (simp_all add: moved_def)
    show ?thesis
      using eq c' e' r' fr mv rej
      by (intro exI [of _ ?h'] exI [of _ ?cs']) (simp add: changes_after_def errors_after_def)
  qed
qed


lemma p_validate_extends: "p_validate k v old (h, cs) = (h1, res) \<Longrightarrow> \<exists>ext. h1 = h @ ext"
  by (auto simp: p_validate_def pureAssign_def alloc_def split: option.splits prod.splits)

lemma frame_except_trans:
  "frame_except A h h1 \<Longrightarrow> frame_except A h1 h2 \<Longrightarrow> frame_except A h h2"
  by (auto simp: frame_except_def)

lemma moved_append: "moved a a' (h @ ext) h' \<Longrightarrow> moved a a' h h'"
  by (auto simp: moved_def)

lemma validateAndSet_sync_flat:
  assumes skip: "\<not> skipValidate cs"
    and flat: "DOT_SEPARATOR \<notin> set k"
    and c: "cell_at h (CHANGES cs) = Some (PlainObj ps)"
    and e: "cell_at h (ERRORS cs) = Some (PlainObj qs)"
    and meta: "''__ember_meta__'' \<notin> fst ` set qs"
    and old: "ember_get h (VRef (CONTENT cs)) k = Inr old"
    and pv: "p_validate k v old (h, cs) = (h1, Now validation)"
  shows "\<exists>h' cs'. validateAndSet k v (h, cs) = Inr ((h', cs'), None) \<and>
           cell_at h' (CHANGES cs') =
             Some (PlainObj (changes_after (accepted h1 validation) k v old ps)) \<and>
           cell_at h' (ERRORS cs') =
             Some (PlainObj (errors_after (accepted h1 validation) k (length h1) qs)) \<and>
           (accepted h1 validation \<or> cell_at h' (length h1) = Some (error_record v validation)) \<and>
           frame_except {CHANGES cs, ERRORS cs} h h' \<and>
           moved (CHANGES cs) (CHANGES cs') h h' \<and> moved (ERRORS cs) (ERRORS cs') h h' \<and>
           cs' = cs\<lparr>CHANGES := CHANGES cs', ERRORS := ERRORS cs',
                     triggered := triggered cs @ [BeforeValidation k, AfterValidation k]\<rparr>"
proof -
  let ?old = old
  let ?cs1 = "trigger (AfterValidation k) (trigger (BeforeValidation k) cs)"
  obtain ext where h1: "h1 = h @ ext" using p_validate_extends [OF pv] by blast
  have c1: "cell_at h1 (CHANGES ?cs1) = Some (PlainObj ps)"
    using cell_at_mono [OF c, of ext] by (simp add: h1 trigger_def)
  have e1: "cell_at h1 (ERRORS ?cs1) = Some (PlainObj qs)"
    using cell_at_mono [OF e, of ext] by (simp add: h1 trigger_def)
  obtain h' cs' where sp: "p_setProperty validation k v ?old (h1, ?cs1) = Inr (h', cs')"
    and c': "cell_at h' (CHANGES cs') =
               Some (PlainObj (changes_after (accepted h1 validation) k v ?old ps))"
    and e': "cell_at h' (ERRORS cs') =
               Some (PlainObj (errors_after (accepted h1 validation) k (length h1) qs))"
    and r': "accepted h1 validation \<or> cell_at h' (length h1) = Some (error_record v validation)"
    and fr: "frame_except {CHANGES ?cs1, ERRORS ?cs1} h1 h'"
    and mv: "moved (CHANGES ?cs1) (CHANGES cs') h1 h'" "moved (ERRORS ?cs1) (ERRORS cs') h1 h'"
    and cs': "cs' = ?cs1\<lparr>CHANGES := CHANGES cs', ERRORS := ERRORS cs'\<rparr>"
    using p_setProperty_flat [OF flat c1 e1 meta, of validation v ?old] by blast
  have eq: "validateAndSet k v (h, cs) = Inr ((h', cs'), None)"
    using validateAndSet_sync [OF skip old pv] sp by simp
  have fr0: "frame_except {CHANGES cs, ERRORS cs} h h'"
    using frame_except_trans [OF frame_except_append [of _ h ext]] fr
    by (simp add: h1 trigger_def)
  have mv0: "moved (CHANGES cs) (CHANGES cs') h h'" "moved (ERRORS cs) (ERRORS cs') h h'"
    using mv by (auto simp: h1 trigger_def intro: moved_append)
  have cs0: "cs' = cs\<lparr>CHANGES := CHANGES cs', ERRORS := ERRORS cs',
                       triggered := triggered cs @ [BeforeValidation k, AfterValidation k]\<rparr>"
    by (subst cs') (simp add: trigger_def)
  show ?thesis
    using eq c' e' r' fr0 mv0 cs0 by blast
qed

lemma not_own_remaining: "k \<notin> fst ` set (remaining k ps)"
  using keys_remaining [of k ps] by blast

lemma own_update: "k \<in> fst ` set (AList.update k v ps)"
  by (simp add: AList.dom_update)

lemma lookup_update: "lookup (AList.update k v ps) k = v"
  by (simp add: lookup_def AList.update_conv')

subsection \<open>What an operation leaves of the changeset\<close>

lemma p_deleteKey_triggered:
  "p_deleteKey b k (h, cs) = Inr (h', cs') \<Longrightarrow> triggered cs' = triggered cs"
  by (auto simp: p_deleteKey_def set_buffer_def Let_def
      split: sum.splits prod.splits if_splits buffer.splits)

lemma ember_meta_cleanup_cs: "ember_meta_cleanup k (h, cs) = Inr (h', cs') \<Longrightarrow> cs' = cs"
  by (auto simp: ember_meta_cleanup_def Let_def split: sum.splits if_splits)

lemma valueFor_triggered: "valueFor k (h, cs) = Inr (v, cs') \<Longrightarrow> triggered cs' = triggered cs"
  by (auto simp: valueFor_def p_relayFor_def Let_def split: if_splits sum.splits)

lemma get_this_walk_triggered:
  "get_this_walk h cs v ps = Inr (v', cs') \<Longrightarrow> triggered cs' = triggered cs"
proof (induction ps arbitrary: cs v)
  case Nil
  then show ?case by simp
next
  case (Cons p ps)
  show ?case
  proof (cases "gettable v")
    case False
    with Cons.prems show ?thesis by simp
  next
    case True
    with Cons.prems have na: "get_asserts v p = None" by (auto split: option.splits)
    obtain v1 cs1 where step:
      "(case v of VRelay r \<Rightarrow> valueFor (r @ [DOT_SEPARATOR] @ p) (h, cs)
        | _ \<Rightarrow> Inr (js_prop h v p, cs)) = Inr (v1, cs1)"
      using Cons.prems True na by (auto split: sum.splits)
    have t1: "triggered cs1 = triggered cs"
      using step by (cases v) (auto dest: valueFor_triggered)
    show ?thesis
    proof (cases "truthy v1 \<and> truthy (js_prop h v1 ''isDestroyed'')")
      case True
      with Cons.prems \<open>gettable v\<close> na step have "cs' = cs1" by simp
      with t1 show ?thesis by simp
    next
      case False
      with Cons.prems \<open>gettable v\<close> na step have "get_this_walk h cs1 v1 ps = Inr (v', cs')"
        by auto
      then have "triggered cs' = triggered cs1" by (rule Cons.IH)
      with t1 show ?thesis by simp
    qed
  qed
qed

lemma get_this_triggered: "get_this k (h, cs) = Inr (v, cs') \<Longrightarrow> triggered cs' = triggered cs"
  by (auto simp: get_this_def split: if_splits prod.splits sum.splits
      dest!: valueFor_triggered get_this_walk_triggered)

lemma addError_triggered:
  "addError k opts (h, cs) = Inr (h', cs') \<Longrightarrow> triggered cs' = triggered cs"
  by (auto simp: addError_def Let_def alloc_def split: if_splits prod.splits sum.splits
      dest!: get_this_triggered p_deleteKey_triggered)

lemma p_setProperty_triggered:
  "p_setProperty validation k v old (h, cs) = Inr (h', cs') \<Longrightarrow> triggered cs' = triggered cs"
  by (auto simp: p_setProperty_def Let_def alloc_def split: if_splits prod.splits sum.splits
      dest!: addError_triggered p_deleteKey_triggered ember_meta_cleanup_cs)

lemma p_setIsValidating_cs: "p_setIsValidating k b (h, cs) = Inr (h', cs') \<Longrightarrow> cs' = cs"
  by (auto simp: p_setIsValidating_def Let_def split: if_splits val.splits sum.splits)

subsection \<open>Execute and rollback\<close>

lemma set_flat_plain:
  "cell_at h a = Some (PlainObj ps) \<Longrightarrow>
   set_flat h (VRef a) k v = Inr (h[a := PlainObj (AList.update k v ps)])"
  by (simp add: set_flat_def put_prop_plain)

lemma ember_set_flat:
  "DOT_SEPARATOR \<notin> set k \<Longrightarrow> cell_at h a = Some (PlainObj ps) \<Longrightarrow>
   ember_set h (VRef a) k v = Inr (h[a := PlainObj (AList.update k v ps)])"
  by (simp add: ember_set_def set_flat_plain)

lemma setProperties_loop_flat:
  assumes "\<forall>k \<in> set ks. DOT_SEPARATOR \<notin> set k"
    and "cell_at h c = Some (PlainObj cps)"
    and "cell_at h a = Some (PlainObj ps)"
    and "a \<noteq> c"
  shows "forEach (\<lambda>h1 k. ember_set h1 (VRef c) k (js_prop h1 (VRef a) k)) ks h =
           Inr (h[c := PlainObj (foldl (\<lambda>acc k. AList.update k (lookup ps k) acc) cps ks)])"
  using assms
proof (induction ks arbitrary: h cps)
  case Nil
  then show ?case by (simp add: update_same)
next
  case (Cons k ks)
  let ?h1 = "h[c := PlainObj (AList.update k (lookup ps k) cps)]"
  have lt: "c < length h" using Cons.prems(2) by (rule cell_at_less)
  have step: "ember_set h (VRef c) k (js_prop h (VRef a) k) = Inr ?h1"
    using Cons.prems by (simp add: ember_set_flat js_prop_plain)
  have c1: "cell_at ?h1 c = Some (PlainObj (AList.update k (lookup ps k) cps))"
    using lt by (simp add: cell_at_update)
  have a1: "cell_at ?h1 a = Some (PlainObj ps)"
    using Cons.prems(3,4) by (simp add: cell_at_update)
  have "\<forall>k \<in> set ks. DOT_SEPARATOR \<notin> set k" using Cons.prems(1) by simp
  from Cons.IH [OF this c1 a1 Cons.prems(4)] step show ?case by simp
qed

lemma execute_flat:
  assumes "cell_at h (CONTENT cs) = Some (PlainObj cps)"
    and "cell_at h (CHANGES cs) = Some (PlainObj ps)"
    and "CHANGES cs \<noteq> CONTENT cs"
    and "\<forall>k \<in> fst ` set ps. DOT_SEPARATOR \<notin> set k"
  shows "execute (h, cs) =
           (if isValid (h, cs) \<and> isDirty (h, cs)
            then Inr (h[CONTENT cs := PlainObj (foldl (\<lambda>acc k. AList.update k (lookup ps k) acc)
                                                   cps (map fst ps))], cs)
            else Inr (h, cs))"
  using setProperties_loop_flat [OF _ assms(1,2,3), of "map fst ps"] assms(4)
  by (simp add: execute_def setProperties_def object_keys_plain [OF assms(2)])

lemma execute_cs: "execute (h, cs) = Inr (h', cs') \<Longrightarrow> cs' = cs"
  by (auto simp: execute_def Let_def split: if_splits sum.splits)

lemma rollback_clears: "isPristine (rollback s) \<and> isValid (rollback s)"
  by (cases s)
     (simp add: rollback_def alloc_def isPristine_def isValid_def isEmptyObject_def
       object_keys_def own_enumerable_def cell_at_def nth_append)

subsection \<open>Merging two buffers\<close>

lemma map_of_foldl_update:
  "distinct (map fst ps) \<Longrightarrow>
   map_of (foldl (\<lambda>acc kv. AList.update (fst kv) (snd kv) acc) acc ps) = map_of acc ++ map_of ps"
proof (induction ps arbitrary: acc)
  case Nil
  then show ?case by simp
next
  case (Cons p ps)
  have notin: "fst p \<notin> dom (map_of ps)"
    using Cons.prems by (auto simp: dom_map_of_conv_image_fst)
  have "map_of (foldl (\<lambda>acc kv. AList.update (fst kv) (snd kv) acc) acc (p # ps)) =
        map_of (AList.update (fst p) (snd p) acc) ++ map_of ps"
    using Cons by simp
  also have "\<dots> = (map_of acc)(fst p \<mapsto> snd p) ++ map_of ps"
    by (simp add: AList.update_conv')
  also have "\<dots> = map_of acc ++ map_of (p # ps)"
    using notin by (cases p) (auto simp: map_add_def fun_eq_iff split: option.splits)
  finally show ?case .
qed

lemma map_of_assign_props:
  "distinct (map fst ps) \<Longrightarrow> map_of (assign_props acc ps) = map_of acc ++ map_of ps"
  by (simp add: assign_props_def map_of_foldl_update)

lemma own_enumerable_mono:
  "cell_at h a = Some c \<Longrightarrow> own_enumerable (h @ ext) (VRef a) = own_enumerable h (VRef a)"
  by (simp add: own_enumerable_def cell_at_mono)

lemma isEmptyObject_plain: "cell_at h a = Some (PlainObj ps) \<Longrightarrow> isEmptyObject h a = (ps = [])"
  by (simp add: isEmptyObject_def object_keys_plain)

definition overlay :: "props \<Rightarrow> string set \<Rightarrow> props \<Rightarrow> string \<Rightarrow> val option" where
  "overlay mine excluded theirs k =
     (case map_of theirs k of
        Some v \<Rightarrow> Some v
      | None \<Rightarrow> (if k \<in> excluded then None else map_of mine k))"

lemma map_of_filter_keys:
  "map_of (filter (\<lambda>kv. fst kv \<notin> X) ps) k = (if k \<in> X then None else map_of ps k)"
  by (induction ps) auto

lemma merged_props:
  assumes "distinct (map fst mine)" "distinct (map fst theirs)"
  shows "map_of (foldl assign_props []
           [assign_props [] (filter (\<lambda>kv. fst kv \<notin> X) mine), theirs]) = overlay mine X theirs"
proof -
  have d: "distinct (map fst (filter (\<lambda>kv. fst kv \<notin> X) mine))"
    using assms(1) by (simp add: distinct_map_filter)
  show ?thesis
    by (simp add: assign_props_distinct [OF d] map_of_assign_props [OF assms(2)]
        overlay_def fun_eq_iff map_add_def map_of_filter_keys split: option.splits)
qed


lemma cell_at_append_off:
  "cell_at (h @ xs) (length h + i) = (if i < length xs then Some (xs ! i) else None)"
  by (simp add: cell_at_def nth_append)

lemma cell_at_append_len: "cell_at (h @ x # xs) (length h) = Some x"
  by (simp add: cell_at_def nth_append)

lemma own_enumerable_old:
  "cell_at h a = Some (PlainObj ps) \<Longrightarrow> own_enumerable (h @ ext) (VRef a) = ps"
  by (simp add: own_enumerable_def cell_at_mono)

lemma object_keys_old:
  "cell_at h a = Some (PlainObj ps) \<Longrightarrow> object_keys (h @ ext) (VRef a) = map fst ps"
  by (simp add: object_keys_def own_enumerable_old)

definition kept :: "props \<Rightarrow> props \<Rightarrow> props" where
  "kept mine other = assign_props [] (filter (\<lambda>kv. fst kv \<notin> set (map fst other)) mine)"

lemma own_enumerable_new:
  "i < length xs \<Longrightarrow> xs ! i = PlainObj ps \<Longrightarrow> own_enumerable (h @ xs) (VRef (length h + i)) = ps"
  by (simp add: own_enumerable_def cell_at_append_off)

lemma own_enumerable_new':
  "i < length xs \<Longrightarrow> xs ! i = PlainObj ps \<Longrightarrow> own_enumerable (h @ xs) (VRef (i + length h)) = ps"
  using own_enumerable_new [of i xs ps h] by (simp add: add.commute)

lemma merge_new:
  assumes ca: "cell_at h (CHANGES this) = Some (PlainObj ca)"
    and ea: "cell_at h (ERRORS this) = Some (PlainObj ea)"
    and cb: "cell_at h (CHANGES other) = Some (PlainObj cb)"
    and eb: "cell_at h (ERRORS other) = Some (PlainObj eb)"
    and same: "CONTENT other = CONTENT this"
    and dirty: "\<not> (ca = [] \<and> cb = [])"
    and present: "isPresent h (VRef (CONTENT this))"
  shows "merge (AChangeset other) (h, this) =
           Inr (h @ [PlainObj [], PlainObj [], PlainObj [], PlainObj (kept ea cb),
                     PlainObj (kept ca eb),
                     PlainObj (assign_props (assign_props [] (kept ca eb)) cb),
                     PlainObj (assign_props (assign_props [] (kept ea cb)) eb)],
                New \<lparr>CONTENT = CONTENT this, CHANGES = length h + 5, ERRORS = length h + 6,
                     VALIDATOR = VALIDATOR this, validationMap = [], skipValidate = False,
                     RELAY_CACHE = [], RUNNING_VALIDATIONS = length h + 2, triggered = []\<rparr>)"
proof -
  let ?h1 = "h @ [PlainObj [], PlainObj [], PlainObj []]"
  have nc: "new_changeset h (CONTENT this) (VALIDATOR this) [] False =
              Inr (?h1, \<lparr>CONTENT = CONTENT this, CHANGES = length h, ERRORS = Suc (length h),
                         VALIDATOR = VALIDATOR this, validationMap = [], skipValidate = False,
                         RELAY_CACHE = [], RUNNING_VALIDATIONS = Suc (Suc (length h)),
                         triggered = []\<rparr>)"
    using present by (simp add: new_changeset_def alloc_def)
  have pr: "\<not> (isPristine (h, this) \<and> isPristine (h, other))"
    using dirty by (simp add: isPristine_def isEmptyObject_plain [OF ca] isEmptyObject_plain [OF cb])
  have l3: "Suc (Suc (Suc (length h))) = length h + 3" by simp
  have l4: "Suc (Suc (Suc (Suc (length h)))) = length h + 4" by simp
  show ?thesis
    using same pr
    by (simp add: merge_def nc objectWithout_def pureAssign_def alloc_def
        object_keys_old [OF cb] object_keys_old [OF eb]
        own_enumerable_old [OF ea] own_enumerable_old [OF ca]
        own_enumerable_old [OF cb] own_enumerable_old [OF eb]
        l3 l4 own_enumerable_new own_enumerable_new' kept_def)
qed


lemma overlay_kept:
  assumes "distinct (map fst mine)" "distinct (map fst theirs)"
  shows "map_of (assign_props (assign_props [] (kept mine other)) theirs) =
           overlay mine (fst ` set other) theirs"
  using merged_props [OF assms, of "fst ` set other"] by (simp add: kept_def)

subsection \<open>Deleting a nested key\<close>

declare string_of_nat.simps [simp del]

lemma split_dot_nonempty: "split_dot s \<noteq> []"
  by (induction s) auto

lemma split_dot_cons:
  "DOT_SEPARATOR \<notin> set a \<Longrightarrow> split_dot (a @ DOT_SEPARATOR # r) = a # split_dot r"
  by (induction a) (auto simp: split_dot_nonempty DOT_SEPARATOR_def)

lemma split_dot_two:
  "DOT_SEPARATOR \<notin> set a \<Longrightarrow> DOT_SEPARATOR \<notin> set b \<Longrightarrow>
   split_dot (a @ DOT_SEPARATOR # b) = [a, b]"
  by (simp add: split_dot_cons split_dot_plain)

lemma split_dot_three:
  "DOT_SEPARATOR \<notin> set a \<Longrightarrow> DOT_SEPARATOR \<notin> set b \<Longrightarrow> DOT_SEPARATOR \<notin> set c \<Longrightarrow>
   split_dot (a @ DOT_SEPARATOR # b @ DOT_SEPARATOR # c) = [a, b, c]"
  by (simp add: split_dot_cons split_dot_plain)

lemma lookup_Some: "map_of ps k = Some v \<Longrightarrow> lookup ps k = v"
  by (simp add: lookup_def)

lemma map_of_key: "map_of ps k = Some v \<Longrightarrow> k \<in> fst ` set ps"
  by (metis domI dom_map_of_conv_image_fst)

text \<open>Two segments.\<close>

lemma delete_nested_two_absent:
  assumes "DOT_SEPARATOR \<notin> set a" "DOT_SEPARATOR \<notin> set b"
    and "cell_at h t = Some (PlainObj tp)" "a \<notin> fst ` set tp"
  shows "delete_nested h t (a @ DOT_SEPARATOR # b) = Inr h"
  using assms
  by (simp add: delete_nested_def split_dot_two Let_def js_prop_plain lookup_absent isEmpty_def)

lemma delete_nested_two_plain:
  assumes "DOT_SEPARATOR \<notin> set a" "DOT_SEPARATOR \<notin> set b"
    and t: "cell_at h t = Some (PlainObj tp)" and la: "map_of tp a = Some (VRef n)"
    and n: "cell_at h n = Some (PlainObj xs)" and nt: "n \<noteq> t"
  shows "delete_nested h t (a @ DOT_SEPARATOR # b) =
           (if collection_empty xs then Inr h
            else if AList.delete b xs = []
            then Inr (h[n := PlainObj (AList.delete b xs), t := PlainObj (AList.delete a tp)])
            else Inr (h[n := PlainObj (AList.delete b xs)]))"
proof -
  let ?h1 = "h[n := PlainObj (AList.delete b xs)]"
  have nlt: "n < length h" using n by (rule cell_at_less)
  have n1: "cell_at ?h1 n = Some (PlainObj (AList.delete b xs))"
    using nlt by (simp add: cell_at_update)
  have t1: "cell_at ?h1 t = Some (PlainObj tp)"
    using t nt by (simp add: cell_at_update)
  have t1': "cell_at (h[n := PlainObj []]) t = Some (PlainObj tp)"
    using t nt by (simp add: cell_at_update)
  have n1': "cell_at (h[n := PlainObj []]) n = Some (PlainObj [])"
    using nlt by (simp add: cell_at_update)
  show ?thesis
  proof (cases "AList.delete b xs = []")
    case True
    then show ?thesis
      using assms(1,2)
      by (simp add: delete_nested_def split_dot_two Let_def js_prop_plain [OF t]
          lookup_Some [OF la] isEmpty_plain [OF n] js_delete_plain [OF n]
          object_keys_plain [OF n1'] js_delete_plain [OF t1'])
  next
    case False
    then show ?thesis
      using assms(1,2)
      by (simp add: delete_nested_def split_dot_two Let_def js_prop_plain [OF t]
          lookup_Some [OF la] isEmpty_plain [OF n] js_delete_plain [OF n]
          object_keys_plain [OF n1])
  qed
qed

definition before2 :: "heap \<Rightarrow> addr \<Rightarrow> string \<Rightarrow> addr \<Rightarrow> props \<Rightarrow> heap \<Rightarrow> bool" where
  "before2 h t a n qs h' =
     (length h' = Suc (length h) \<and>
      (\<exists>tp. cell_at h' t = Some (PlainObj tp) \<and> map_of tp a = Some (VRef n)) \<and>
      cell_at h' n = Some (PlainObj qs) \<and>
      (\<forall>c<length h. c \<noteq> n \<longrightarrow> h' ! c = h ! c))"

definition after2 :: "heap \<Rightarrow> addr \<Rightarrow> string \<Rightarrow> string \<Rightarrow> addr \<Rightarrow> props \<Rightarrow> heap \<Rightarrow> bool" where
  "after2 h t a b n qs h' =
     (length h' = Suc (length h) \<and>
      (\<exists>tp. cell_at h' t = Some (PlainObj tp) \<and>
         (if AList.delete b qs = [] then a \<notin> fst ` set tp else map_of tp a = Some (VRef n))) \<and>
      cell_at h' n = Some (PlainObj (AList.delete b qs)) \<and>
      (\<forall>c<length h. c \<noteq> n \<longrightarrow> h' ! c = h ! c))"

lemma delete_body_after2:
  assumes a: "DOT_SEPARATOR \<notin> set a" and b: "DOT_SEPARATOR \<notin> set b"
    and t: "t = length h" and n: "n < length h"
    and Q: "after2 h t a b n qs h'"
  shows "\<exists>h''. delete_body t (a @ DOT_SEPARATOR # b) h' p = Inr h'' \<and> after2 h t a b n qs h''"
proof -
  let ?elem = "a @ DOT_SEPARATOR # b"
  from Q obtain tp where len: "length h' = Suc (length h)"
    and tc: "cell_at h' t = Some (PlainObj tp)"
    and ta: "if AList.delete b qs = [] then a \<notin> fst ` set tp else map_of tp a = Some (VRef n)"
    and nc: "cell_at h' n = Some (PlainObj (AList.delete b qs))"
    and fr: "\<forall>c<length h. c \<noteq> n \<longrightarrow> h' ! c = h ! c"
    by (auto simp: after2_def)
  have ne: "a \<noteq> ?elem" using a by auto
  have dot: "DOT_SEPARATOR \<in> set ?elem" by simp
  have nt: "n \<noteq> t" using n t by simp
  consider (skip) "\<not> hasOwnProperty h' (VRef t) p"
    | (same) "hasOwnProperty h' (VRef t) p" "?elem = p"
    | (nested) "hasOwnProperty h' (VRef t) p" "?elem \<noteq> p" by blast
  then show ?thesis
  proof cases
    case skip
    then show ?thesis using Q by (simp add: delete_body_def)
  next
    case same
    let ?h'' = "h'[t := PlainObj (AList.delete p tp)]"
    have step: "delete_body t ?elem h' p = Inr ?h''"
      using same tc by (simp add: delete_body_def js_delete_plain)
    have tlt: "t < length h'" using tc by (rule cell_at_less)
    have "after2 h t a b n qs ?h''"
      unfolding after2_def
    proof (intro conjI)
      show "length ?h'' = Suc (length h)" using len by simp
      show "\<exists>tp'. cell_at ?h'' t = Some (PlainObj tp') \<and>
              (if AList.delete b qs = [] then a \<notin> fst ` set tp' else map_of tp' a = Some (VRef n))"
        using ta tlt ne same(2)
        by (intro exI [of _ "AList.delete p tp"]) (auto simp: cell_at_update keys_delete)
      show "cell_at ?h'' n = Some (PlainObj (AList.delete b qs))"
        using nc nt by (simp add: cell_at_update)
      show "\<forall>c<length h. c \<noteq> n \<longrightarrow> ?h'' ! c = h ! c"
        using fr t by simp
    qed
    with step show ?thesis by blast
  next
    case nested
    have body: "delete_body t ?elem h' p = delete_nested h' t ?elem"
      using nested dot by (simp add: delete_body_def)
    show ?thesis
    proof (cases "AList.delete b qs = []")
      case True
      with ta have "a \<notin> fst ` set tp" by simp
      then have "delete_nested h' t ?elem = Inr h'"
        by (rule delete_nested_two_absent [OF a b tc])
      with body Q show ?thesis by simp
    next
      case False
      with ta have la: "map_of tp a = Some (VRef n)" by simp
      have idem: "h'[n := PlainObj (AList.delete b (AList.delete b qs))] = h'"
        using nc by (simp add: AList.delete_idem update_same)
      have "delete_nested h' t ?elem = Inr h'"
        using delete_nested_two_plain [OF a b tc la nc nt] False idem
        by (simp add: AList.delete_idem)
      with body Q show ?thesis by simp
    qed
  qed
qed


lemma forEach_after2:
  assumes a: "DOT_SEPARATOR \<notin> set a" and b: "DOT_SEPARATOR \<notin> set b"
    and t: "t = length h" and n: "n < length h"
    and Q: "after2 h t a b n qs h'"
  shows "\<exists>h''. forEach (delete_body t (a @ DOT_SEPARATOR # b)) props h' = Inr h'' \<and>
               after2 h t a b n qs h''"
  using Q
proof (induction props arbitrary: h')
  case Nil
  then show ?case by simp
next
  case (Cons p props)
  from delete_body_after2 [OF a b t n Cons.prems, of p]
  obtain h1 where s: "delete_body t (a @ DOT_SEPARATOR # b) h' p = Inr h1"
    and Q1: "after2 h t a b n qs h1" by blast
  from Cons.IH [OF Q1] s show ?case by simp
qed

lemma forEach_before2:
  assumes a: "DOT_SEPARATOR \<notin> set a" and b: "DOT_SEPARATOR \<notin> set b"
    and t: "t = length h" and n: "n < length h"
    and ne: "\<not> collection_empty qs"
    and P: "before2 h t a n qs h'"
    and mem: "a \<in> set props"
  shows "\<exists>h''. forEach (delete_body t (a @ DOT_SEPARATOR # b)) props h' = Inr h'' \<and>
               after2 h t a b n qs h''"
  using P mem
proof (induction props arbitrary: h')
  case Nil
  then show ?case by simp
next
  case (Cons p props)
  let ?elem = "a @ DOT_SEPARATOR # b"
  from Cons.prems(1) obtain tp where len: "length h' = Suc (length h)"
    and tc: "cell_at h' t = Some (PlainObj tp)"
    and ta: "map_of tp a = Some (VRef n)"
    and nc: "cell_at h' n = Some (PlainObj qs)"
    and fr: "\<forall>c<length h. c \<noteq> n \<longrightarrow> h' ! c = h ! c"
    by (auto simp: before2_def)
  have ane: "a \<noteq> ?elem" using a by auto
  have dot: "DOT_SEPARATOR \<in> set ?elem" by simp
  have nt: "n \<noteq> t" using n t by simp
  have tlt: "t < length h'" using tc by (rule cell_at_less)
  have aown: "a \<in> fst ` set tp" using ta by (rule map_of_key)
  consider (skip) "p \<notin> fst ` set tp"
    | (same) "p \<in> fst ` set tp" "?elem = p"
    | (nested) "p \<in> fst ` set tp" "?elem \<noteq> p" by blast
  then show ?case
  proof cases
    case skip
    then have s: "delete_body t ?elem h' p = Inr h'"
      by (simp add: delete_body_def hasOwnProperty_plain [OF tc])
    from skip aown have "p \<noteq> a" by auto
    with Cons.prems(2) have "a \<in> set props" by simp
    from Cons.IH [OF Cons.prems(1) this] s show ?thesis by simp
  next
    case same
    let ?h1 = "h'[t := PlainObj (AList.delete p tp)]"
    have s: "delete_body t ?elem h' p = Inr ?h1"
      using same by (simp add: delete_body_def hasOwnProperty_plain [OF tc] js_delete_plain [OF tc])
    have P1: "before2 h t a n qs ?h1"
      unfolding before2_def
    proof (intro conjI)
      show "length ?h1 = Suc (length h)" using len by simp
      show "\<exists>tp'. cell_at ?h1 t = Some (PlainObj tp') \<and> map_of tp' a = Some (VRef n)"
        using ta tlt ane same(2)
        by (intro exI [of _ "AList.delete p tp"]) (auto simp: cell_at_update)
      show "cell_at ?h1 n = Some (PlainObj qs)" using nc nt by (simp add: cell_at_update)
      show "\<forall>c<length h. c \<noteq> n \<longrightarrow> ?h1 ! c = h ! c" using fr t by simp
    qed
    from same(2) ane have "p \<noteq> a" by auto
    with Cons.prems(2) have "a \<in> set props" by simp
    from Cons.IH [OF P1 this] s show ?thesis by simp
  next
    case nested
    let ?h1 = "h'[n := PlainObj (AList.delete b qs)]"
    let ?h2 = "?h1[t := PlainObj (AList.delete a tp)]"
    have body: "delete_body t ?elem h' p = delete_nested h' t ?elem"
      using nested dot by (simp add: delete_body_def hasOwnProperty_plain [OF tc])
    have dn: "delete_nested h' t ?elem = (if AList.delete b qs = [] then Inr ?h2 else Inr ?h1)"
      using delete_nested_two_plain [OF a b tc ta nc nt] ne by simp
    have nlt: "n < length h'" using nc by (rule cell_at_less)
    have Q1: "after2 h t a b n qs (if AList.delete b qs = [] then ?h2 else ?h1)"
      unfolding after2_def
    proof (intro conjI)
      show "length (if AList.delete b qs = [] then ?h2 else ?h1) = Suc (length h)"
        using len by simp
      show "\<exists>tp'. cell_at (if AList.delete b qs = [] then ?h2 else ?h1) t = Some (PlainObj tp') \<and>
              (if AList.delete b qs = [] then a \<notin> fst ` set tp'
               else map_of tp' a = Some (VRef n))"
      proof (cases "AList.delete b qs = []")
        case True
        then show ?thesis
          using tlt by (intro exI [of _ "AList.delete a tp"]) (simp add: cell_at_update keys_delete)
      next
        case False
        then show ?thesis
          using tc ta nt by (intro exI [of _ tp]) (simp add: cell_at_update)
      qed
      show "cell_at (if AList.delete b qs = [] then ?h2 else ?h1) n =
              Some (PlainObj (AList.delete b qs))"
        using nlt nt by (simp add: cell_at_update)
      show "\<forall>c<length h. c \<noteq> n \<longrightarrow> (if AList.delete b qs = [] then ?h2 else ?h1) ! c = h ! c"
        using fr t by simp
    qed
    have s: "delete_body t ?elem h' p = Inr (if AList.delete b qs = [] then ?h2 else ?h1)"
      using body dn by simp
    from forEach_after2 [OF a b t n Q1, of props] s show ?thesis by simp
  qed
qed

lemma deleteKeys_two_segments:
  assumes a: "DOT_SEPARATOR \<notin> set a" and b: "DOT_SEPARATOR \<notin> set b"
    and obj: "cell_at h obj = Some (PlainObj ps)" and d: "distinct (map fst ps)"
    and pa: "map_of ps a = Some (VRef n)"
    and nc: "cell_at h n = Some (PlainObj qs)"
    and ne: "\<not> collection_empty qs"
  shows "\<exists>h' r. deleteKeysFromObject h (VRef obj) (OneKey (a @ DOT_SEPARATOR # b)) = Inr (h', r) \<and>
           cell_at h' n = Some (PlainObj (AList.delete b qs)) \<and>
           (AList.delete b qs = [] \<longrightarrow> \<not> hasOwnProperty h' (VRef r) a) \<and>
           (AList.delete b qs \<noteq> [] \<longrightarrow>
              js_prop h' (VRef r) a = VRef n \<or> object_keys h' (VRef r) = []) \<and>
           length h \<le> r \<and> (\<forall>c<length h. c \<noteq> n \<longrightarrow> h' ! c = h ! c)"
proof -
  let ?t = "length h"
  let ?h0 = "h @ [PlainObj ps]"
  let ?elem = "a @ DOT_SEPARATOR # b"
  have nlt: "n < length h" using nc by (rule cell_at_less)
  have pa0: "pureAssign h [VRef obj] = (?h0, ?t)"
    using pureAssign_single [OF obj] by (simp add: assign_props_distinct [OF d])
  have t0: "cell_at ?h0 ?t = Some (PlainObj ps)" by (simp add: cell_at_def)
  have P: "before2 h ?t a n qs ?h0"
    using pa nlt cell_at_mono [OF nc, of "[PlainObj ps]"] t0
    by (auto simp: before2_def nth_append)
  have mem: "a \<in> set (object_keys ?h0 (VRef ?t))"
    using map_of_key [OF pa] by (simp add: object_keys_plain [OF t0])
  from forEach_before2 [OF a b refl nlt ne P mem]
  obtain h5 where loop: "forEach (delete_body ?t ?elem) (object_keys ?h0 (VRef ?t)) ?h0 = Inr h5"
    and Q: "after2 h ?t a b n qs h5" by blast
  from Q obtain tp where len: "length h5 = Suc (length h)"
    and tc: "cell_at h5 ?t = Some (PlainObj tp)"
    and ta: "if AList.delete b qs = [] then a \<notin> fst ` set tp else map_of tp a = Some (VRef n)"
    and n5: "cell_at h5 n = Some (PlainObj (AList.delete b qs))"
    and fr: "\<forall>c<length h. c \<noteq> n \<longrightarrow> h5 ! c = h ! c"
    by (auto simp: after2_def)
  have res: "deleteKeysFromObject h (VRef obj) (OneKey ?elem) =
               (if isEmpty h5 (VRef ?t) then Inr (h5 @ [PlainObj []], length h5) else Inr (h5, ?t))"
    by (simp add: deleteKeysFromObject_unfold pa0 keysToDelete_def loop alloc_def)
  show ?thesis
  proof (cases "isEmpty h5 (VRef ?t)")
    case True
    have e: "cell_at (h5 @ [PlainObj []]) (Suc (length h)) = Some (PlainObj [])"
      using len [symmetric] by (simp add: cell_at_def)
    show ?thesis
      using res True cell_at_mono [OF n5, of "[PlainObj []]"] fr len
      by (auto simp: hasOwnProperty_plain [OF e] object_keys_plain [OF e] nth_append)
  next
    case False
    show ?thesis
      using res False n5 fr ta len
      by (auto simp: hasOwnProperty_plain [OF tc] js_prop_plain [OF tc] lookup_Some)
  qed
qed


text \<open>Three segments.\<close>

lemma delete_nested_three_plain:
  assumes "DOT_SEPARATOR \<notin> set a" "DOT_SEPARATOR \<notin> set b" "DOT_SEPARATOR \<notin> set c"
    and t: "cell_at h t = Some (PlainObj tp)" and la: "map_of tp a = Some (VRef n)"
    and n: "cell_at h n = Some (PlainObj qs)" and ne: "\<not> collection_empty qs"
    and lb: "map_of qs b = Some (VRef d)"
    and d: "cell_at h d = Some (PlainObj rs)"
  shows "delete_nested h t (a @ DOT_SEPARATOR # b @ DOT_SEPARATOR # c) =
           Inr (h[d := PlainObj (AList.delete c rs)])"
  using assms(1-3) ne
  by (simp add: delete_nested_def split_dot_three Let_def js_prop_plain [OF t]
      lookup_Some [OF la] isEmpty_plain [OF n] js_prop_plain [OF n] lookup_Some [OF lb]
      js_delete_plain [OF d])

definition inv3 :: "heap \<Rightarrow> addr \<Rightarrow> string \<Rightarrow> addr \<Rightarrow> props \<Rightarrow> addr \<Rightarrow> props \<Rightarrow> heap \<Rightarrow> bool" where
  "inv3 h t a n qs d rs h' =
     (length h' = Suc (length h) \<and>
      (\<exists>tp. cell_at h' t = Some (PlainObj tp) \<and> map_of tp a = Some (VRef n)) \<and>
      cell_at h' n = Some (PlainObj qs) \<and>
      cell_at h' d = Some (PlainObj rs) \<and>
      (\<forall>x<length h. x \<noteq> d \<longrightarrow> h' ! x = h ! x))"

lemma delete_body_inv3:
  assumes a: "DOT_SEPARATOR \<notin> set a" and b: "DOT_SEPARATOR \<notin> set b"
    and c: "DOT_SEPARATOR \<notin> set c"
    and t: "t = length h" and n: "n < length h" and d: "d < length h" and dn: "d \<noteq> n"
    and ne: "\<not> collection_empty qs" and lb: "map_of qs b = Some (VRef d)"
    and I: "inv3 h t a n qs d rs h'"
  shows "\<exists>h''. delete_body t (a @ DOT_SEPARATOR # b @ DOT_SEPARATOR # c) h' p = Inr h'' \<and>
           (inv3 h t a n qs d rs h'' \<or> inv3 h t a n qs d (AList.delete c rs) h'') \<and>
           (p = a \<longrightarrow> inv3 h t a n qs d (AList.delete c rs) h'')"
proof -
  let ?elem = "a @ DOT_SEPARATOR # b @ DOT_SEPARATOR # c"
  from I obtain tp where len: "length h' = Suc (length h)"
    and tc: "cell_at h' t = Some (PlainObj tp)"
    and ta: "map_of tp a = Some (VRef n)"
    and nc: "cell_at h' n = Some (PlainObj qs)"
    and dc: "cell_at h' d = Some (PlainObj rs)"
    and fr: "\<forall>x<length h. x \<noteq> d \<longrightarrow> h' ! x = h ! x"
    by (auto simp: inv3_def)
  have aown: "a \<in> fst ` set tp" using ta by (rule map_of_key)
  have ane: "a \<noteq> ?elem" using a by auto
  have dot: "DOT_SEPARATOR \<in> set ?elem" by simp
  have nt: "n \<noteq> t" using n t by simp
  have dt: "d \<noteq> t" using d t by simp
  have tlt: "t < length h'" using tc by (rule cell_at_less)
  have dlt: "d < length h'" using dc by (rule cell_at_less)
  consider (skip) "p \<notin> fst ` set tp"
    | (same) "p \<in> fst ` set tp" "?elem = p"
    | (nested) "p \<in> fst ` set tp" "?elem \<noteq> p" by blast
  then show ?thesis
  proof cases
    case skip
    then show ?thesis using I aown
      by (auto simp: delete_body_def hasOwnProperty_plain [OF tc])
  next
    case same
    let ?h1 = "h'[t := PlainObj (AList.delete p tp)]"
    have s: "delete_body t ?elem h' p = Inr ?h1"
      using same by (simp add: delete_body_def hasOwnProperty_plain [OF tc] js_delete_plain [OF tc])
    have "inv3 h t a n qs d rs ?h1"
      unfolding inv3_def
    proof (intro conjI)
      show "length ?h1 = Suc (length h)" using len by simp
      show "\<exists>tp'. cell_at ?h1 t = Some (PlainObj tp') \<and> map_of tp' a = Some (VRef n)"
        using ta tlt ane same(2)
        by (intro exI [of _ "AList.delete p tp"]) (auto simp: cell_at_update)
      show "cell_at ?h1 n = Some (PlainObj qs)" using nc nt by (simp add: cell_at_update)
      show "cell_at ?h1 d = Some (PlainObj rs)" using dc dt by (simp add: cell_at_update)
      show "\<forall>x<length h. x \<noteq> d \<longrightarrow> ?h1 ! x = h ! x" using fr t by simp
    qed
    with s same(2) ane show ?thesis by auto
  next
    case nested
    let ?h1 = "h'[d := PlainObj (AList.delete c rs)]"
    have body: "delete_body t ?elem h' p = delete_nested h' t ?elem"
      using nested dot by (simp add: delete_body_def hasOwnProperty_plain [OF tc])
    have s: "delete_body t ?elem h' p = Inr ?h1"
      using body delete_nested_three_plain [OF a b c tc ta nc ne lb dc] by simp
    have "inv3 h t a n qs d (AList.delete c rs) ?h1"
      unfolding inv3_def
    proof (intro conjI)
      show "length ?h1 = Suc (length h)" using len by simp
      show "\<exists>tp'. cell_at ?h1 t = Some (PlainObj tp') \<and> map_of tp' a = Some (VRef n)"
        using tc ta dt by (intro exI [of _ tp]) (simp add: cell_at_update)
      show "cell_at ?h1 n = Some (PlainObj qs)" using nc dn by (simp add: cell_at_update)
      show "cell_at ?h1 d = Some (PlainObj (AList.delete c rs))"
        using dlt by (simp add: cell_at_update)
      show "\<forall>x<length h. x \<noteq> d \<longrightarrow> ?h1 ! x = h ! x" using fr by simp
    qed
    with s show ?thesis by auto
  qed
qed


lemma forEach_inv3_after:
  assumes a: "DOT_SEPARATOR \<notin> set a" and b: "DOT_SEPARATOR \<notin> set b"
    and c: "DOT_SEPARATOR \<notin> set c"
    and t: "t = length h" and n: "n < length h" and d: "d < length h" and dn: "d \<noteq> n"
    and ne: "\<not> collection_empty qs" and lb: "map_of qs b = Some (VRef d)"
    and I: "inv3 h t a n qs d (AList.delete c rs) h'"
  shows "\<exists>h''. forEach (delete_body t (a @ DOT_SEPARATOR # b @ DOT_SEPARATOR # c)) props h' = Inr h'' \<and>
               inv3 h t a n qs d (AList.delete c rs) h''"
  using I
proof (induction props arbitrary: h')
  case Nil
  then show ?case by simp
next
  case (Cons p props)
  from delete_body_inv3 [OF a b c t n d dn ne lb Cons.prems, of p]
  obtain h1 where s: "delete_body t (a @ DOT_SEPARATOR # b @ DOT_SEPARATOR # c) h' p = Inr h1"
    and I1: "inv3 h t a n qs d (AList.delete c rs) h1"
    by (auto simp: AList.delete_idem)
  from Cons.IH [OF I1] s show ?case by simp
qed

lemma forEach_inv3_before:
  assumes a: "DOT_SEPARATOR \<notin> set a" and b: "DOT_SEPARATOR \<notin> set b"
    and c: "DOT_SEPARATOR \<notin> set c"
    and t: "t = length h" and n: "n < length h" and d: "d < length h" and dn: "d \<noteq> n"
    and ne: "\<not> collection_empty qs" and lb: "map_of qs b = Some (VRef d)"
    and I: "inv3 h t a n qs d rs h'"
    and mem: "a \<in> set props"
  shows "\<exists>h''. forEach (delete_body t (a @ DOT_SEPARATOR # b @ DOT_SEPARATOR # c)) props h' = Inr h'' \<and>
               inv3 h t a n qs d (AList.delete c rs) h''"
  using I mem
proof (induction props arbitrary: h')
  case Nil
  then show ?case by simp
next
  case (Cons p props)
  let ?elem = "a @ DOT_SEPARATOR # b @ DOT_SEPARATOR # c"
  from delete_body_inv3 [OF a b c t n d dn ne lb Cons.prems(1), of p]
  obtain h1 where s: "delete_body t ?elem h' p = Inr h1"
    and alt: "inv3 h t a n qs d rs h1 \<or> inv3 h t a n qs d (AList.delete c rs) h1"
    and pa: "p = a \<longrightarrow> inv3 h t a n qs d (AList.delete c rs) h1"
    by blast
  show ?case
  proof (cases "inv3 h t a n qs d (AList.delete c rs) h1")
    case True
    from forEach_inv3_after [OF a b c t n d dn ne lb True, of props] s show ?thesis by simp
  next
    case False
    with alt pa have I1: "inv3 h t a n qs d rs h1" and "p \<noteq> a" by auto
    with Cons.prems(2) have "a \<in> set props" by simp
    from Cons.IH [OF I1 this] s show ?thesis by simp
  qed
qed

lemma deleteKeys_three_segments:
  assumes a: "DOT_SEPARATOR \<notin> set a" and b: "DOT_SEPARATOR \<notin> set b"
    and c: "DOT_SEPARATOR \<notin> set c"
    and obj: "cell_at h obj = Some (PlainObj ps)" and dist: "distinct (map fst ps)"
    and pa: "map_of ps a = Some (VRef n)"
    and nc: "cell_at h n = Some (PlainObj qs)"
    and ne: "\<not> collection_empty qs"
    and lb: "map_of qs b = Some (VRef d)"
    and dc: "cell_at h d = Some (PlainObj rs)" and dn: "d \<noteq> n"
  shows "\<exists>h' r. deleteKeysFromObject h (VRef obj)
                  (OneKey (a @ DOT_SEPARATOR # b @ DOT_SEPARATOR # c)) = Inr (h', r) \<and>
           cell_at h' d = Some (PlainObj (AList.delete c rs)) \<and>
           cell_at h' n = Some (PlainObj qs) \<and>
           (js_prop h' (VRef r) a = VRef n \<or> object_keys h' (VRef r) = []) \<and>
           length h \<le> r \<and> (\<forall>x<length h. x \<noteq> d \<longrightarrow> h' ! x = h ! x)"
proof -
  let ?t = "length h"
  let ?h0 = "h @ [PlainObj ps]"
  let ?elem = "a @ DOT_SEPARATOR # b @ DOT_SEPARATOR # c"
  have nlt: "n < length h" using nc by (rule cell_at_less)
  have dlt: "d < length h" using dc by (rule cell_at_less)
  have pa0: "pureAssign h [VRef obj] = (?h0, ?t)"
    using pureAssign_single [OF obj] by (simp add: assign_props_distinct [OF dist])
  have t0: "cell_at ?h0 ?t = Some (PlainObj ps)" by (simp add: cell_at_def)
  have I: "inv3 h ?t a n qs d rs ?h0"
    using pa cell_at_mono [OF nc, of "[PlainObj ps]"] cell_at_mono [OF dc, of "[PlainObj ps]"] t0
    by (auto simp: inv3_def nth_append)
  have mem: "a \<in> set (object_keys ?h0 (VRef ?t))"
    using map_of_key [OF pa] by (simp add: object_keys_plain [OF t0])
  from forEach_inv3_before [OF a b c refl nlt dlt dn ne lb I mem]
  obtain h5 where loop: "forEach (delete_body ?t ?elem) (object_keys ?h0 (VRef ?t)) ?h0 = Inr h5"
    and Q: "inv3 h ?t a n qs d (AList.delete c rs) h5" by blast
  from Q obtain tp where len: "length h5 = Suc (length h)"
    and tc: "cell_at h5 ?t = Some (PlainObj tp)"
    and ta: "map_of tp a = Some (VRef n)"
    and n5: "cell_at h5 n = Some (PlainObj qs)"
    and d5: "cell_at h5 d = Some (PlainObj (AList.delete c rs))"
    and fr: "\<forall>x<length h. x \<noteq> d \<longrightarrow> h5 ! x = h ! x"
    by (auto simp: inv3_def)
  have res: "deleteKeysFromObject h (VRef obj) (OneKey ?elem) =
               (if isEmpty h5 (VRef ?t) then Inr (h5 @ [PlainObj []], length h5) else Inr (h5, ?t))"
    by (simp add: deleteKeysFromObject_unfold pa0 keysToDelete_def loop alloc_def)
  show ?thesis
  proof (cases "isEmpty h5 (VRef ?t)")
    case True
    have e: "cell_at (h5 @ [PlainObj []]) (Suc (length h)) = Some (PlainObj [])"
      using len [symmetric] by (simp add: cell_at_def)
    show ?thesis
      using res True cell_at_mono [OF n5, of "[PlainObj []]"]
        cell_at_mono [OF d5, of "[PlainObj []]"] fr len
      by (auto simp: object_keys_plain [OF e] nth_append)
  next
    case False
    show ?thesis
      using res False n5 d5 fr ta len
      by (auto simp: js_prop_plain [OF tc] lookup_Some)
  qed
qed

text \<open>More than three segments, and one segment more than the branch for two.\<close>

lemma delete_nested_deep:
  "length (split_dot elem) \<noteq> 2 \<Longrightarrow> length (split_dot elem) \<noteq> 3 \<Longrightarrow>
   delete_nested h t elem =
     Inl (Error (''Nested level '' @ string_of_nat (length (split_dot elem)) @
                 '' is not supported yet''))"
  by (simp add: delete_nested_def Let_def)

lemma forEach_deep_raises:
  assumes dot: "DOT_SEPARATOR \<in> set elem"
    and l2: "length (split_dot elem) \<noteq> 2" and l3: "length (split_dot elem) \<noteq> 3"
  shows "cell_at h' t = Some (PlainObj tp) \<Longrightarrow>
         \<exists>p\<in>set props. p \<noteq> elem \<and> p \<in> fst ` set tp \<Longrightarrow>
         forEach (delete_body t elem) props h' =
           Inl (Error (''Nested level '' @ string_of_nat (length (split_dot elem)) @
                       '' is not supported yet''))"
proof (induction props arbitrary: h' tp)
  case Nil
  then show ?case by simp
next
  case (Cons p props)
  from Cons.prems(2) obtain q where q: "q \<in> set (p # props)" "q \<noteq> elem" "q \<in> fst ` set tp"
    by blast
  have tc: "cell_at h' t = Some (PlainObj tp)" by (rule Cons.prems(1))
  have tlt: "t < length h'" using tc by (rule cell_at_less)
  consider (skip) "p \<notin> fst ` set tp"
    | (same) "p \<in> fst ` set tp" "elem = p"
    | (nested) "p \<in> fst ` set tp" "elem \<noteq> p" by blast
  then show ?case
  proof cases
    case skip
    then have s: "delete_body t elem h' p = Inr h'"
      by (simp add: delete_body_def hasOwnProperty_plain [OF tc])
    from skip q have "q \<in> set props" by auto
    with q have "\<exists>p\<in>set props. p \<noteq> elem \<and> p \<in> fst ` set tp" by blast
    from Cons.IH [OF tc this] s show ?thesis by simp
  next
    case same
    let ?h1 = "h'[t := PlainObj (AList.delete p tp)]"
    have s: "delete_body t elem h' p = Inr ?h1"
      using same by (simp add: delete_body_def hasOwnProperty_plain [OF tc] js_delete_plain [OF tc])
    have t1: "cell_at ?h1 t = Some (PlainObj (AList.delete p tp))"
      using tlt by (simp add: cell_at_update)
    from same q have "q \<in> set props" "q \<in> fst ` set (AList.delete p tp)"
      by (auto simp: keys_delete)
    with q have "\<exists>x\<in>set props. x \<noteq> elem \<and> x \<in> fst ` set (AList.delete p tp)" by blast
    from Cons.IH [OF t1 this] s show ?thesis by simp
  next
    case nested
    then show ?thesis
      using dot by (simp add: delete_body_def hasOwnProperty_plain [OF tc]
          delete_nested_deep [OF l2 l3])
  qed
qed

lemma forEach_deep_returns:
  "cell_at h' t = Some (PlainObj tp) \<Longrightarrow> \<forall>p\<in>fst ` set tp. p = elem \<Longrightarrow>
   \<exists>tp'. forEach (delete_body t elem) props h' = Inr (h'[t := PlainObj tp']) \<and>
         (tp' = tp \<or> tp' = AList.delete elem tp) \<and>
         (elem \<in> set props \<longrightarrow> tp' = AList.delete elem tp)"
proof (induction props arbitrary: h' tp)
  case Nil
  have "h' = h'[t := PlainObj tp]" using update_same [OF Nil(1)] by simp
  then show ?case by (intro exI [of _ tp]) simp
next
  case (Cons p props)
  have tc: "cell_at h' t = Some (PlainObj tp)" by (rule Cons.prems(1))
  have tlt: "t < length h'" using tc by (rule cell_at_less)
  show ?case
  proof (cases "p \<in> fst ` set tp")
    case False
    then have s: "delete_body t elem h' p = Inr h'"
      by (simp add: delete_body_def hasOwnProperty_plain [OF tc])
    from False Cons.prems(2) have "elem \<notin> fst ` set tp \<or> p \<noteq> elem" by auto
    moreover have "elem \<notin> fst ` set tp \<Longrightarrow> AList.delete elem tp = tp"
      by (rule AList.delete_id)
    ultimately show ?thesis
      using Cons.IH [OF tc Cons.prems(2)] s by auto
  next
    case True
    with Cons.prems(2) have pe: "p = elem" by auto
    let ?h1 = "h'[t := PlainObj (AList.delete p tp)]"
    have s: "delete_body t elem h' p = Inr ?h1"
      using True pe by (simp add: delete_body_def hasOwnProperty_plain [OF tc] js_delete_plain [OF tc])
    have t1: "cell_at ?h1 t = Some (PlainObj (AList.delete p tp))"
      using tlt by (simp add: cell_at_update)
    have all: "\<forall>x\<in>fst ` set (AList.delete p tp). x = elem"
      using Cons.prems(2) by (auto simp: keys_delete)
    from Cons.IH [OF t1 all] s pe show ?thesis by (auto simp: AList.delete_idem)
  qed
qed

text \<open>The path delete only removes keys, and returns a plain object.\<close>

definition shrinks :: "heap \<Rightarrow> heap \<Rightarrow> bool" where
  "shrinks h h' =
     (length h' = length h \<and>
      (\<forall>x ps. cell_at h x = Some (PlainObj ps) \<longrightarrow>
         (\<exists>ps'. cell_at h' x = Some (PlainObj ps') \<and> fst ` set ps' \<subseteq> fst ` set ps)))"

lemma shrinks_refl: "shrinks h h"
  by (auto simp: shrinks_def)

lemma shrinksD:
  "shrinks h h' \<Longrightarrow> cell_at h x = Some (PlainObj ps) \<Longrightarrow>
   \<exists>ps'. cell_at h' x = Some (PlainObj ps') \<and> fst ` set ps' \<subseteq> fst ` set ps"
  unfolding shrinks_def by (elim conjE allE [of _ x] allE [of _ ps] impE) assumption+

lemma shrinks_length: "shrinks h h' \<Longrightarrow> length h' = length h"
  by (simp add: shrinks_def)

lemma shrinks_trans:
  assumes "shrinks h h1" and "shrinks h1 h2"
  shows "shrinks h h2"
  unfolding shrinks_def
proof (intro conjI allI impI)
  show "length h2 = length h" using assms by (simp add: shrinks_length)
next
  fix x ps
  assume c: "cell_at h x = Some (PlainObj ps)"
  from shrinksD [OF assms(1) c] obtain ps1 where 1: "cell_at h1 x = Some (PlainObj ps1)"
    and s1: "fst ` set ps1 \<subseteq> fst ` set ps" by (elim exE conjE)
  from shrinksD [OF assms(2) 1] obtain ps2 where 2: "cell_at h2 x = Some (PlainObj ps2)"
    and s2: "fst ` set ps2 \<subseteq> fst ` set ps1" by (elim exE conjE)
  from s2 s1 have "fst ` set ps2 \<subseteq> fst ` set ps" by (rule subset_trans)
  with 2 show "\<exists>ps'. cell_at h2 x = Some (PlainObj ps') \<and> fst ` set ps' \<subseteq> fst ` set ps"
    by (intro exI [of _ ps2] conjI)
qed

lemma shrinks_delete:
  assumes "cell_at h a = Some (PlainObj ps)"
  shows "shrinks h (h[a := PlainObj (AList.delete k ps)])"
  unfolding shrinks_def
proof (intro conjI allI impI)
  show "length (h[a := PlainObj (AList.delete k ps)]) = length h" by simp
next
  fix x qs
  assume c: "cell_at h x = Some (PlainObj qs)"
  have lt: "a < length h" using assms by (rule cell_at_less)
  show "\<exists>ps'. cell_at (h[a := PlainObj (AList.delete k ps)]) x = Some (PlainObj ps') \<and>
              fst ` set ps' \<subseteq> fst ` set qs"
  proof (cases "x = a")
    case True
    with c assms have "qs = ps" by simp
    with True lt show ?thesis
      by (intro exI [of _ "AList.delete k ps"]) (simp add: cell_at_update keys_delete Diff_subset)
  next
    case False
    with c show ?thesis by (intro exI [of _ qs]) (simp add: cell_at_update)
  qed
qed

lemma js_delete_shrinks: "js_delete h v k = Inr h' \<Longrightarrow> shrinks h h'"
  by (auto simp: js_delete_def shrinks_refl shrinks_delete
      split: val.splits option.splits cell.splits if_splits)

lemma delete_nested_shrinks:
  assumes "delete_nested h t elem = Inr h'"
  shows "shrinks h h'"
proof -
  let ?parts = "split_dot elem"
  consider (two) "length ?parts = 2" | (three) "length ?parts \<noteq> 2" "length ?parts = 3"
    | (deep) "length ?parts \<noteq> 2" "length ?parts \<noteq> 3" by blast
  then show ?thesis
  proof cases
    case two
    let ?n = "js_prop h (VRef t) (?parts ! 0)"
    show ?thesis
    proof (cases "isEmpty h ?n")
      case True
      with assms two have "h' = h" by (simp add: delete_nested_def Let_def)
      then show ?thesis by (simp add: shrinks_refl)
    next
      case False
      with assms two obtain h1 where d1: "js_delete h ?n (?parts ! 1) = Inr h1"
        and d2: "(if length (object_keys h1 ?n) = 0 then js_delete h1 (VRef t) (?parts ! 0)
                  else Inr h1) = Inr h'"
        by (auto simp: delete_nested_def Let_def split: sum.splits)
      have s1: "shrinks h h1" by (rule js_delete_shrinks [OF d1])
      have "shrinks h1 h'"
        using d2 by (auto split: if_splits intro: shrinks_refl js_delete_shrinks)
      with s1 show ?thesis by (rule shrinks_trans)
    qed
  next
    case three
    with assms show ?thesis
      by (auto simp: delete_nested_def Let_def split: if_splits
          intro: shrinks_refl js_delete_shrinks)
  next
    case deep
    with assms show ?thesis by (simp add: delete_nested_def Let_def)
  qed
qed

lemma delete_body_shrinks: "delete_body t elem h p = Inr h' \<Longrightarrow> shrinks h h'"
  by (auto simp: delete_body_def split: if_splits
      intro: shrinks_refl js_delete_shrinks delete_nested_shrinks)

lemma forEach_delete_body_shrinks:
  "forEach (delete_body t elem) props h = Inr h' \<Longrightarrow> shrinks h h'"
proof (induction props arbitrary: h)
  case Nil
  then show ?case by (simp add: shrinks_refl)
next
  case (Cons p props)
  from Cons.prems obtain h1 where s: "delete_body t elem h p = Inr h1"
    and r: "forEach (delete_body t elem) props h1 = Inr h'"
    by (auto split: sum.splits)
  from delete_body_shrinks [OF s] Cons.IH [OF r] show ?case by (rule shrinks_trans)
qed

lemma deleteKeys_loop:
  assumes obj: "cell_at h obj = Some (PlainObj ps)" and dist: "distinct (map fst ps)"
  shows "deleteKeysFromObject h (VRef obj) (OneKey k) =
           (case forEach (delete_body (length h) k) (map fst ps) (h @ [PlainObj ps]) of
              Inl e \<Rightarrow> Inl e
            | Inr h5 \<Rightarrow>
                if isEmpty h5 (VRef (length h)) then Inr (h5 @ [PlainObj []], length h5)
                else Inr (h5, length h))"
proof -
  let ?t = "length h"
  let ?h0 = "h @ [PlainObj ps]"
  have pa0: "pureAssign h [VRef obj] = (?h0, ?t)"
    using pureAssign_single [OF obj] by (simp add: assign_props_distinct [OF dist])
  have t0: "cell_at ?h0 ?t = Some (PlainObj ps)" by (simp add: cell_at_def)
  have keys: "object_keys ?h0 (VRef ?t) = map fst ps" by (rule object_keys_plain [OF t0])
  show ?thesis
    by (simp add: deleteKeysFromObject_unfold pa0 keysToDelete_def keys alloc_def
        split: sum.splits)
qed

lemma deleteKeys_result_plain:
  assumes obj: "cell_at h obj = Some (PlainObj ps)" and dist: "distinct (map fst ps)"
    and res: "deleteKeysFromObject h (VRef obj) (OneKey k) = Inr (h', r)"
  shows "length h \<le> r \<and> r < length h' \<and>
         (\<exists>tp. cell_at h' r = Some (PlainObj tp) \<and> fst ` set tp \<subseteq> fst ` set ps)"
proof -
  let ?t = "length h"
  let ?h0 = "h @ [PlainObj ps]"
  from res obtain h5 where loop: "forEach (delete_body ?t k) (map fst ps) ?h0 = Inr h5"
    and fin: "(if isEmpty h5 (VRef ?t) then Inr (h5 @ [PlainObj []], length h5)
               else Inr (h5, ?t)) = (Inr (h', r) :: error + heap \<times> addr)"
    unfolding deleteKeys_loop [OF obj dist] by (auto split: sum.splits)
  have sh: "shrinks ?h0 h5" by (rule forEach_delete_body_shrinks [OF loop])
  have t0: "cell_at ?h0 ?t = Some (PlainObj ps)" by (simp add: cell_at_def)
  have len: "length h5 = Suc (length h)" using shrinks_length [OF sh] by simp
  from shrinksD [OF sh t0] obtain tp
    where t5: "cell_at h5 ?t = Some (PlainObj tp)" and sub: "fst ` set tp \<subseteq> fst ` set ps"
    by (elim exE conjE)
  show ?thesis
  proof (cases "isEmpty h5 (VRef ?t)")
    case True
    with fin have h': "h' = h5 @ [PlainObj []]" and r: "r = length h5" by simp_all
    have "cell_at h' r = Some (PlainObj [])" unfolding h' r by (rule cell_at_append_new)
    then have "\<exists>tp. cell_at h' r = Some (PlainObj tp) \<and> fst ` set tp \<subseteq> fst ` set ps"
      by (intro exI [of _ "[]"]) simp
    with len h' r show ?thesis by simp
  next
    case False
    with fin have h': "h' = h5" and r: "r = length h" by simp_all
    from t5 sub have "\<exists>tp. cell_at h' r = Some (PlainObj tp) \<and> fst ` set tp \<subseteq> fst ` set ps"
      unfolding h' r by (intro exI [of _ tp] conjI)
    with len h' r show ?thesis by simp
  qed
qed

subsection \<open>The outcome of a write\<close>

text \<open>The entry of an object along the segments of a key.\<close>

fun entry :: "heap \<Rightarrow> val \<Rightarrow> string list \<Rightarrow> val option" where
  "entry h obj [] = Some obj"
| "entry h obj (p # ps) = (if hasOwnProperty h obj p then entry h (js_prop h obj p) ps else None)"







lemma accepted_append:
  "accepted h r \<Longrightarrow> accepted (h @ ext) r"
  by (auto simp: accepted_def isSingleValidationArray_iff dest: cell_at_mono)




subsection \<open>Writing at a key of two segments\<close>

lemma frame_except_cell:
  "frame_except A h h' \<Longrightarrow> cell_at h y = Some c \<Longrightarrow> y \<notin> A \<Longrightarrow> cell_at h' y = Some c"
  by (auto simp: frame_except_def cell_at_def split: if_splits)

lemma frame_except_mono: "frame_except A h h' \<Longrightarrow> A \<subseteq> B \<Longrightarrow> frame_except B h h'"
  by (auto simp: frame_except_def)

lemma forEach_delete_body_absent:
  assumes a: "DOT_SEPARATOR \<notin> set a" and b: "DOT_SEPARATOR \<notin> set b"
  shows "cell_at h t = Some (PlainObj tp) \<Longrightarrow> a \<notin> fst ` set tp \<Longrightarrow>
         forEach (delete_body t (a @ DOT_SEPARATOR # b)) props h =
           Inr (h[t := PlainObj (if a @ DOT_SEPARATOR # b \<in> set props
                                 then AList.delete (a @ DOT_SEPARATOR # b) tp else tp)])"
proof (induction props arbitrary: h tp)
  case Nil
  then show ?case by (simp add: update_same)
next
  case (Cons p props)
  let ?elem = "a @ DOT_SEPARATOR # b"
  have tc: "cell_at h t = Some (PlainObj tp)" by (rule Cons.prems(1))
  have lt: "t < length h" using tc by (rule cell_at_less)
  have dot: "DOT_SEPARATOR \<in> set ?elem" by simp
  show ?case
  proof (cases "?elem = p \<and> p \<in> fst ` set tp")
    case True
    let ?h1 = "h[t := PlainObj (AList.delete ?elem tp)]"
    have step: "delete_body t ?elem h p = Inr ?h1"
      using True by (simp add: delete_body_def hasOwnProperty_plain [OF tc] js_delete_plain [OF tc])
    have c1: "cell_at ?h1 t = Some (PlainObj (AList.delete ?elem tp))"
      using lt by (simp add: cell_at_update)
    have a1: "a \<notin> fst ` set (AList.delete ?elem tp)"
      using Cons.prems(2) by (simp add: keys_delete)
    show ?thesis
      using True Cons.IH [OF c1 a1] step by (simp add: AList.delete_idem)
  next
    case False
    have step: "delete_body t ?elem h p = Inr h"
    proof (cases "p \<in> fst ` set tp")
      case True
      with False have ne: "?elem \<noteq> p" by blast
      have "delete_body t ?elem h p = delete_nested h t ?elem"
        using True ne dot by (simp add: delete_body_def hasOwnProperty_plain [OF tc])
      with delete_nested_two_absent [OF a b tc Cons.prems(2)] show ?thesis by simp
    next
      case False
      then show ?thesis by (simp add: delete_body_def hasOwnProperty_plain [OF tc])
    qed
    have id: "?elem = p \<Longrightarrow> AList.delete ?elem tp = tp"
      using False by (simp add: AList.delete_id)
    show ?thesis
      using Cons.IH [OF Cons.prems] step id by (auto simp: AList.delete_id)
  qed
qed


definition root_gone :: "heap \<Rightarrow> props \<Rightarrow> string \<Rightarrow> string \<Rightarrow> addr \<Rightarrow> bool" where
  "root_gone h tp a b n =
     (a \<notin> fst ` set tp \<or>
      (map_of tp a = Some (VRef n) \<and>
       (\<exists>ns'. cell_at h n = Some (PlainObj ns') \<and> b \<notin> fst ` set ns')))"

lemma deleteKeys_two_summary:
  assumes a: "DOT_SEPARATOR \<notin> set a" and b: "DOT_SEPARATOR \<notin> set b"
    and obj: "cell_at h obj = Some (PlainObj ps)" and dist: "distinct (map fst ps)"
    and root: "a \<notin> fst ` set ps \<or>
               (map_of ps a = Some (VRef n) \<and> cell_at h n = Some (PlainObj ns) \<and>
                \<not> collection_empty ns)"
  shows "\<exists>h1 x tp. deleteKeysFromObject h (VRef obj) (OneKey (a @ DOT_SEPARATOR # b)) = Inr (h1, x) \<and>
           length h \<le> x \<and> x < length h1 \<and>
           cell_at h1 x = Some (PlainObj tp) \<and> fst ` set tp \<subseteq> fst ` set ps \<and>
           root_gone h1 tp a b n \<and>
           frame_except (if a \<in> fst ` set ps then {n} else {}) h h1"
proof (cases "a \<in> fst ` set ps")
  case False
  let ?k = "a @ DOT_SEPARATOR # b"
  let ?t = "length h"
  let ?h0 = "h @ [PlainObj ps]"
  let ?tp = "if ?k \<in> set (map fst ps) then AList.delete ?k ps else ps"
  have t0: "cell_at ?h0 ?t = Some (PlainObj ps)" by (rule cell_at_append_new)
  have loop: "forEach (delete_body ?t ?k) (map fst ps) ?h0 = Inr (h @ [PlainObj ?tp])"
    using forEach_delete_body_absent [OF a b t0 False, of "map fst ps"] by simp
  have sub: "fst ` set ?tp \<subseteq> fst ` set ps" by (simp add: keys_delete Diff_subset)
  have na: "a \<notin> fst ` set ?tp" using False sub by (rule contra_subsetD [rotated])
  have res: "deleteKeysFromObject h (VRef obj) (OneKey ?k) =
               (if isEmpty (h @ [PlainObj ?tp]) (VRef ?t)
                then Inr ((h @ [PlainObj ?tp]) @ [PlainObj []], length (h @ [PlainObj ?tp]))
                else Inr (h @ [PlainObj ?tp], ?t))"
    unfolding deleteKeys_loop [OF obj dist] loop by simp
  show ?thesis
  proof (cases "isEmpty (h @ [PlainObj ?tp]) (VRef ?t)")
    case True
    let ?h1 = "(h @ [PlainObj ?tp]) @ [PlainObj []]"
    let ?x = "length (h @ [PlainObj ?tp])"
    have r: "deleteKeysFromObject h (VRef obj) (OneKey ?k) = Inr (?h1, ?x)"
      using res True by simp
    have c: "cell_at ?h1 ?x = Some (PlainObj [])" by (rule cell_at_append_new)
    have fr: "frame_except {} h ?h1"
      using frame_except_append [of "{}" h "[PlainObj ?tp, PlainObj []]"] by simp
    show ?thesis
      using r c fr False
      by (intro exI [of _ ?h1] exI [of _ ?x] exI [of _ "[]"]) (simp add: root_gone_def)
  next
    case nonempty: False
    let ?h1 = "h @ [PlainObj ?tp]"
    have r: "deleteKeysFromObject h (VRef obj) (OneKey ?k) = Inr (?h1, ?t)"
      using res nonempty by simp
    have c: "cell_at ?h1 ?t = Some (PlainObj ?tp)" by (rule cell_at_append_new)
    have fr: "frame_except {} h ?h1" by (rule frame_except_append)
    have rg: "root_gone ?h1 ?tp a b n" using na by (simp add: root_gone_def)
    show ?thesis
      using r c fr False sub rg
      by (intro exI [of _ ?h1] exI [of _ ?t] exI [of _ ?tp]) simp
  qed
next
  case True
  let ?k = "a @ DOT_SEPARATOR # b"
  from root True have pa: "map_of ps a = Some (VRef n)"
    and nc: "cell_at h n = Some (PlainObj ns)" and ne: "\<not> collection_empty ns"
    by simp_all
  from deleteKeys_two_segments [OF a b obj dist pa nc ne]
  obtain h1 x where r: "deleteKeysFromObject h (VRef obj) (OneKey ?k) = Inr (h1, x)"
    and n1: "cell_at h1 n = Some (PlainObj (AList.delete b ns))"
    and gone: "AList.delete b ns = [] \<longrightarrow> \<not> hasOwnProperty h1 (VRef x) a"
    and kept: "AList.delete b ns \<noteq> [] \<longrightarrow>
                 js_prop h1 (VRef x) a = VRef n \<or> object_keys h1 (VRef x) = []"
    and fr0: "\<forall>y<length h. y \<noteq> n \<longrightarrow> h1 ! y = h ! y"
    by (elim exE conjE)
  from deleteKeys_result_plain [OF obj dist r]
  obtain tp where lx: "length h \<le> x" and xl: "x < length h1"
    and xc: "cell_at h1 x = Some (PlainObj tp)" and sub: "fst ` set tp \<subseteq> fst ` set ps"
    by (elim exE conjE)
  have len: "length h \<le> length h1" using lx xl by simp
  have fr: "frame_except {n} h h1" using fr0 len by (simp add: frame_except_def)
  have bn: "b \<notin> fst ` set (AList.delete b ns)" by (rule AList.delete_notin_dom)
  have rg: "root_gone h1 tp a b n"
  proof (cases "a \<in> fst ` set tp")
    case False
    then show ?thesis by (simp add: root_gone_def)
  next
    case own: True
    then have "hasOwnProperty h1 (VRef x) a" by (simp add: hasOwnProperty_plain [OF xc])
    with gone have d: "AList.delete b ns \<noteq> []" by blast
    have "object_keys h1 (VRef x) \<noteq> []"
      using own by (auto simp: object_keys_plain [OF xc])
    with kept d have "js_prop h1 (VRef x) a = VRef n" by blast
    then have l: "lookup tp a = VRef n" by (simp add: js_prop_plain [OF xc])
    from own obtain w where w: "map_of tp a = Some w"
      by (metis domD dom_map_of_conv_image_fst)
    with l have "map_of tp a = Some (VRef n)" by (simp add: lookup_def)
    with n1 bn show ?thesis unfolding root_gone_def by blast
  qed
  show ?thesis
    using r lx xl xc sub rg fr True
    by (intro exI [of _ h1] exI [of _ x] exI [of _ tp]) simp
qed

lemma p_deleteKey_two:
  assumes a: "DOT_SEPARATOR \<notin> set a" and b: "DOT_SEPARATOR \<notin> set b"
    and buf: "cell_at h (get_buffer B cs) = Some (PlainObj ps)" and dist: "distinct (map fst ps)"
    and root: "a \<notin> fst ` set ps \<or>
               (map_of ps a = Some (VRef n) \<and> cell_at h n = Some (PlainObj ns) \<and>
                \<not> collection_empty ns)"
  shows "\<exists>h1 x tp. p_deleteKey B (a @ DOT_SEPARATOR # b) (h, cs) = Inr (h1, set_buffer B x cs) \<and>
           length h \<le> x \<and> x < length h1 \<and>
           cell_at h1 x = Some (PlainObj tp) \<and> fst ` set tp \<subseteq> fst ` set ps \<and>
           root_gone h1 tp a b n \<and>
           frame_except (if a \<in> fst ` set ps then {n} else {}) h h1"
proof -
  from deleteKeys_two_summary [OF a b buf dist root]
  obtain h1 x tp
    where r: "deleteKeysFromObject h (VRef (get_buffer B cs)) (OneKey (a @ DOT_SEPARATOR # b)) =
                Inr (h1, x)"
      and rest: "length h \<le> x" "x < length h1" "cell_at h1 x = Some (PlainObj tp)"
        "fst ` set tp \<subseteq> fst ` set ps" "root_gone h1 tp a b n"
        "frame_except (if a \<in> fst ` set ps then {n} else {}) h h1"
    by (elim exE conjE)
  have "get_buffer B cs < length h" using buf by (rule cell_at_less)
  with rest(1) have ne: "get_buffer B cs \<noteq> x" by simp
  have "p_deleteKey B (a @ DOT_SEPARATOR # b) (h, cs) = Inr (h1, set_buffer B x cs)"
    using ne by (simp add: p_deleteKey_def r isEqual_def)
  with rest show ?thesis
    by (intro exI [of _ h1] exI [of _ x] exI [of _ tp]) simp
qed


lemma entry_root_gone:
  assumes x: "cell_at h x = Some (PlainObj tp)" and rg: "root_gone h tp a b n"
  shows "entry h (VRef x) [a, b] = None"
proof (cases "a \<in> fst ` set tp")
  case False
  then show ?thesis by (simp add: hasOwnProperty_plain [OF x])
next
  case True
  with rg obtain ns' where ma: "map_of tp a = Some (VRef n)"
    and n: "cell_at h n = Some (PlainObj ns')" and nb: "b \<notin> fst ` set ns'"
    unfolding root_gone_def by blast
  have "js_prop h (VRef x) a = VRef n"
    using ma by (simp add: js_prop_plain [OF x] lookup_def)
  with True nb show ?thesis
    by (simp add: hasOwnProperty_plain [OF x] hasOwnProperty_plain [OF n])
qed

lemma root_gone_frame:
  assumes rg: "root_gone h1 tp a b n" and fr: "frame_except A h1 h2"
    and nA: "a \<in> fst ` set tp \<longrightarrow> n \<notin> A"
  shows "root_gone h2 tp a b n"
proof (cases "a \<in> fst ` set tp")
  case False
  then show ?thesis by (simp add: root_gone_def)
next
  case True
  with rg obtain ns' where ma: "map_of tp a = Some (VRef n)"
    and n: "cell_at h1 n = Some (PlainObj ns')" and nb: "b \<notin> fst ` set ns'"
    unfolding root_gone_def by blast
  from True nA have "n \<notin> A" by simp
  from frame_except_cell [OF fr n this] have "cell_at h2 n = Some (PlainObj ns')" .
  with ma nb show ?thesis unfolding root_gone_def by blast
qed

definition stored_two :: "heap \<Rightarrow> addr \<Rightarrow> string \<Rightarrow> string \<Rightarrow> val \<Rightarrow> bool" where
  "stored_two h c a b v =
     (\<exists>ps' m' ms'. cell_at h c = Some (PlainObj ps') \<and> map_of ps' a = Some (VRef m') \<and>
        cell_at h m' = Some (PlainObj ms') \<and> map_of ms' b = Some v)"

lemma entry_stored_two: "stored_two h c a b v \<Longrightarrow> entry h (VRef c) [a, b] = Some v"
proof -
  assume "stored_two h c a b v"
  then obtain ps' m' ms' where c: "cell_at h c = Some (PlainObj ps')"
    and ma: "map_of ps' a = Some (VRef m')"
    and m: "cell_at h m' = Some (PlainObj ms')" and mb: "map_of ms' b = Some v"
    unfolding stored_two_def by blast
  have oa: "a \<in> fst ` set ps'" using ma by (rule map_of_key)
  have ob: "b \<in> fst ` set ms'" using mb by (rule map_of_key)
  show ?thesis
    using oa ob ma mb
    by (simp add: hasOwnProperty_plain [OF c] hasOwnProperty_plain [OF m] js_prop_plain [OF c]
        js_prop_plain [OF m] lookup_def)
qed

lemma map_of_update_same: "map_of (AList.update k v ps) k = Some v"
  by (simp add: AList.update_conv')

lemma deepSet_two:
  assumes a: "DOT_SEPARATOR \<notin> set a" and b: "DOT_SEPARATOR \<notin> set b"
    and c: "cell_at h c = Some (PlainObj ps)"
    and root: "a \<notin> fst ` set ps \<or>
               (map_of ps a = Some (VRef m) \<and> cell_at h m = Some (PlainObj ms) \<and> m \<noteq> c)"
  shows "stored_two (deepSet h c (a @ DOT_SEPARATOR # b) v) c a b v \<and>
         frame_except (if a \<in> fst ` set ps then {m} else {c}) h
           (deepSet h c (a @ DOT_SEPARATOR # b) v)"
proof (cases "a \<in> fst ` set ps")
  case True
  with root have pa: "map_of ps a = Some (VRef m)" and mc: "cell_at h m = Some (PlainObj ms)"
    and ne: "m \<noteq> c" by simp_all
  let ?h2 = "h[m := PlainObj (AList.update b v ms)]"
  have lt: "m < length h" using mc by (rule cell_at_less)
  have ds: "deepSet h c (a @ DOT_SEPARATOR # b) v = ?h2"
    using pa mc
    by (simp add: deepSet_def split_dot_two [OF a b] js_prop_plain [OF c] lookup_def
        put_prop_plain [OF mc])
  have c2: "cell_at ?h2 c = Some (PlainObj ps)" using c ne by (simp add: cell_at_update)
  have m2: "cell_at ?h2 m = Some (PlainObj (AList.update b v ms))"
    using lt by (simp add: cell_at_update)
  have st: "stored_two ?h2 c a b v"
    unfolding stored_two_def using c2 pa m2 map_of_update_same [of b v ms] by blast
  have fr: "frame_except {m} h ?h2"
    using frame_except_update [of m "{m}" h "[]"] by simp
  show ?thesis using True st fr by (simp add: ds)
next
  case False
  let ?new = "length h"
  let ?h1 = "h @ [PlainObj []]"
  let ?h2 = "?h1[c := PlainObj (AList.update a (VRef ?new) ps)]"
  let ?h3 = "?h2[?new := PlainObj (AList.update b v [])]"
  have lt: "c < length h" using c by (rule cell_at_less)
  have la: "lookup ps a = VUndefined" using False by (rule lookup_absent)
  have c1: "cell_at ?h1 c = Some (PlainObj ps)" by (rule cell_at_mono [OF c])
  have n2: "cell_at ?h2 ?new = Some (PlainObj [])"
    using lt by (simp add: cell_at_update cell_at_def)
  have ds: "deepSet h c (a @ DOT_SEPARATOR # b) v = ?h3"
    by (simp add: deepSet_def split_dot_two [OF a b] js_prop_plain [OF c] la alloc_def
        put_prop_plain [OF c1] put_prop_plain [OF n2])
  have c3: "cell_at ?h3 c = Some (PlainObj (AList.update a (VRef ?new) ps))"
    using lt by (simp add: cell_at_update)
  have n3: "cell_at ?h3 ?new = Some (PlainObj (AList.update b v []))"
    by (simp add: cell_at_update)
  have st: "stored_two ?h3 c a b v"
    unfolding stored_two_def
    using c3 n3 map_of_update_same [of a "VRef ?new" ps] map_of_update_same [of b v "[]"]
    by blast
  have fr: "frame_except {c} h ?h3"
    using lt by (simp add: frame_except_def nth_append)
  show ?thesis using False st fr by (simp add: ds)
qed


lemma subset_notin: "A \<subseteq> B \<Longrightarrow> x \<notin> B \<Longrightarrow> x \<notin> A"
  by (rule contra_subsetD)

lemma p_setProperty_two_accept:
  assumes a: "DOT_SEPARATOR \<notin> set a" and b: "DOT_SEPARATOR \<notin> set b"
    and c: "cell_at h (CHANGES cs) = Some (PlainObj ps)"
    and e: "cell_at h (ERRORS cs) = Some (PlainObj qs)"
    and dq: "distinct (map fst qs)"
    and meta: "''__ember_meta__'' \<notin> fst ` set qs"
    and acc: "accepted h validation" and ne: "old \<noteq> v"
    and rootE: "a \<notin> fst ` set qs \<or>
                (map_of qs a = Some (VRef n) \<and> cell_at h n = Some (PlainObj ns) \<and>
                 \<not> collection_empty ns)"
    and rootC: "a \<notin> fst ` set ps \<or>
                (map_of ps a = Some (VRef m) \<and> cell_at h m = Some (PlainObj ms) \<and>
                 m \<noteq> CHANGES cs)"
    and sep1: "a \<in> fst ` set qs \<longrightarrow> n \<noteq> CHANGES cs"
    and sep2: "a \<in> fst ` set qs \<and> a \<in> fst ` set ps \<longrightarrow> n \<noteq> m"
  shows "\<exists>h' cs'. p_setProperty validation (a @ DOT_SEPARATOR # b) v old (h, cs) = Inr (h', cs') \<and>
           entry h' (VRef (ERRORS cs')) [a, b] = None \<and>
           entry h' (VRef (CHANGES cs')) [a, b] = Some v"
proof -
  let ?k = "a @ DOT_SEPARATOR # b"
  let ?c = "CHANGES cs"
  let ?FE = "if a \<in> fst ` set qs then {n} else {}"
  let ?FC = "if a \<in> fst ` set ps then {m} else {?c}"
  have buf: "cell_at h (get_buffer ErrorsBuf cs) = Some (PlainObj qs)"
    using e by (simp add: get_buffer_def)
  from p_deleteKey_two [OF a b buf dq rootE]
  obtain h1 x tp
    where del: "p_deleteKey ErrorsBuf ?k (h, cs) = Inr (h1, set_buffer ErrorsBuf x cs)"
      and lx: "length h \<le> x" and xl: "x < length h1"
      and xc: "cell_at h1 x = Some (PlainObj tp)" and sub: "fst ` set tp \<subseteq> fst ` set qs"
      and rg: "root_gone h1 tp a b n" and fr: "frame_except ?FE h h1"
    by (elim exE conjE)
  let ?cs1 = "cs\<lparr>ERRORS := x\<rparr>"
  have cs1: "set_buffer ErrorsBuf x cs = ?cs1" by (simp add: set_buffer_def)
  have cFE: "?c \<notin> ?FE" using sep1 by auto
  have c1: "cell_at h1 ?c = Some (PlainObj ps)" by (rule frame_except_cell [OF fr c cFE])
  have rootC1: "a \<notin> fst ` set ps \<or>
                (map_of ps a = Some (VRef m) \<and> cell_at h1 m = Some (PlainObj ms) \<and> m \<noteq> ?c)"
  proof (cases "a \<in> fst ` set ps")
    case False
    then show ?thesis by simp
  next
    case True
    with rootC have pa: "map_of ps a = Some (VRef m)" and mc: "cell_at h m = Some (PlainObj ms)"
      and mne: "m \<noteq> ?c" by simp_all
    have "m \<notin> ?FE" using sep2 True by auto
    from frame_except_cell [OF fr mc this] pa mne show ?thesis by simp
  qed
  let ?h2 = "deepSet h1 ?c ?k v"
  from deepSet_two [OF a b c1 rootC1, of v]
  have st: "stored_two ?h2 ?c a b v" and frC: "frame_except ?FC h1 ?h2" by simp_all
  have clt: "?c < length h" using c by (rule cell_at_less)
  have mlt: "a \<in> fst ` set ps \<Longrightarrow> m < length h"
    using rootC by (auto dest: cell_at_less)
  have xFC: "x \<notin> ?FC"
  proof (cases "a \<in> fst ` set ps")
    case True
    from mlt [OF True] lx have "x \<noteq> m" by simp
    with True show ?thesis by simp
  next
    case False
    from clt lx have "x \<noteq> ?c" by simp
    with False show ?thesis by simp
  qed
  have xc2: "cell_at ?h2 x = Some (PlainObj tp)" by (rule frame_except_cell [OF frC xc xFC])
  have nFC: "a \<in> fst ` set tp \<longrightarrow> n \<notin> ?FC"
  proof
    assume "a \<in> fst ` set tp"
    with sub have aq: "a \<in> fst ` set qs" by (rule subsetD)
    with sep1 sep2 show "n \<notin> ?FC" by auto
  qed
  have rg2: "root_gone ?h2 tp a b n" by (rule root_gone_frame [OF rg frC nFC])
  have nometa: "''__ember_meta__'' \<notin> fst ` set tp" by (rule subset_notin [OF sub meta])
  have xc2': "cell_at ?h2 (ERRORS ?cs1) = Some (PlainObj tp)" using xc2 by simp
  have cl: "ember_meta_cleanup ?k (?h2, ?cs1) = Inr (?h2, ?cs1)"
    by (rule ember_meta_cleanup_none [OF xc2' nometa])
  have eq: "p_setProperty validation ?k v old (h, cs) = Inr (?h2, ?cs1)"
    using acc ne by (simp add: p_setProperty_def accepted_def del cs1 isEqual_def cl)
  have e': "entry ?h2 (VRef (ERRORS ?cs1)) [a, b] = None"
    using entry_root_gone [OF xc2 rg2] by simp
  have c': "entry ?h2 (VRef (CHANGES ?cs1)) [a, b] = Some v"
    using entry_stored_two [OF st] by simp
  from eq e' c' show ?thesis by blast
qed

lemma p_setProperty_two_reject:
  assumes a: "DOT_SEPARATOR \<notin> set a" and b: "DOT_SEPARATOR \<notin> set b"
    and c: "cell_at h (CHANGES cs) = Some (PlainObj ps)"
    and e: "cell_at h (ERRORS cs) = Some (PlainObj qs)"
    and dp: "distinct (map fst ps)"
    and rej: "\<not> accepted h validation"
    and rootC: "a \<notin> fst ` set ps \<or>
                (map_of ps a = Some (VRef m) \<and> cell_at h m = Some (PlainObj ms) \<and>
                 \<not> collection_empty ms)"
    and rootE: "a \<notin> fst ` set qs \<or>
                (map_of qs a = Some (VRef n) \<and> cell_at h n = Some (PlainObj ns) \<and>
                 n \<noteq> ERRORS cs)"
    and sep1: "a \<in> fst ` set ps \<longrightarrow> m \<noteq> ERRORS cs"
    and sep2: "a \<in> fst ` set qs \<and> a \<in> fst ` set ps \<longrightarrow> n \<noteq> m"
  shows "\<exists>h' cs'. p_setProperty validation (a @ DOT_SEPARATOR # b) v old (h, cs) = Inr (h', cs') \<and>
           entry h' (VRef (CHANGES cs')) [a, b] = None \<and>
           (\<exists>rec. entry h' (VRef (ERRORS cs')) [a, b] = Some (VRef rec) \<and>
              cell_at h' rec = Some (PlainObj [(''value'', v), (''validation'', validation)]))"
proof -
  let ?k = "a @ DOT_SEPARATOR # b"
  let ?e = "ERRORS cs"
  let ?rec = "length h"
  let ?r = "PlainObj [(''value'', v), (''validation'', validation)]"
  let ?h0 = "h @ [?r]"
  let ?FC = "if a \<in> fst ` set ps then {m} else {}"
  let ?FE = "if a \<in> fst ` set qs then {n} else {?e}"
  have c0: "cell_at ?h0 (CHANGES cs) = Some (PlainObj ps)" by (rule cell_at_mono [OF c])
  have e0: "cell_at ?h0 ?e = Some (PlainObj qs)" by (rule cell_at_mono [OF e])
  have r0: "cell_at ?h0 ?rec = Some ?r" by (rule cell_at_append_new)
  have buf: "cell_at ?h0 (get_buffer ChangesBuf cs) = Some (PlainObj ps)"
    using c0 by (simp add: get_buffer_def)
  have rootC0: "a \<notin> fst ` set ps \<or>
                (map_of ps a = Some (VRef m) \<and> cell_at ?h0 m = Some (PlainObj ms) \<and>
                 \<not> collection_empty ms)"
    using rootC by (auto dest: cell_at_mono)
  from p_deleteKey_two [OF a b buf dp rootC0]
  obtain h1 x tp
    where del: "p_deleteKey ChangesBuf ?k (?h0, cs) = Inr (h1, set_buffer ChangesBuf x cs)"
      and lx: "length ?h0 \<le> x" and xl: "x < length h1"
      and xc: "cell_at h1 x = Some (PlainObj tp)" and sub: "fst ` set tp \<subseteq> fst ` set ps"
      and rg: "root_gone h1 tp a b m" and fr: "frame_except ?FC ?h0 h1"
    by (elim exE conjE)
  let ?cs1 = "cs\<lparr>CHANGES := x\<rparr>"
  have cs1: "set_buffer ChangesBuf x cs = ?cs1" by (simp add: set_buffer_def)
  have elt: "?e < length h" using e by (rule cell_at_less)
  have mlt: "a \<in> fst ` set ps \<Longrightarrow> m < length h"
    using rootC by (auto dest: cell_at_less)
  have nlt: "a \<in> fst ` set qs \<Longrightarrow> n < length h"
    using rootE by (auto dest: cell_at_less)
  have eFC: "?e \<notin> ?FC" using sep1 by auto
  have e1: "cell_at h1 ?e = Some (PlainObj qs)" by (rule frame_except_cell [OF fr e0 eFC])
  have recFC: "?rec \<notin> ?FC"
  proof (cases "a \<in> fst ` set ps")
    case True
    from mlt [OF True] have "?rec \<noteq> m" by simp
    with True show ?thesis by simp
  next
    case False
    then show ?thesis by simp
  qed
  have r1: "cell_at h1 ?rec = Some ?r" by (rule frame_except_cell [OF fr r0 recFC])
  have rootE1: "a \<notin> fst ` set qs \<or>
                (map_of qs a = Some (VRef n) \<and> cell_at h1 n = Some (PlainObj ns) \<and> n \<noteq> ?e)"
  proof (cases "a \<in> fst ` set qs")
    case False
    then show ?thesis by simp
  next
    case True
    with rootE have qa: "map_of qs a = Some (VRef n)" and nc: "cell_at h n = Some (PlainObj ns)"
      and nne: "n \<noteq> ?e" by simp_all
    have nc0: "cell_at ?h0 n = Some (PlainObj ns)" by (rule cell_at_mono [OF nc])
    have "n \<notin> ?FC" using sep2 True by auto
    from frame_except_cell [OF fr nc0 this] qa nne show ?thesis by simp
  qed
  let ?h2 = "deepSet h1 ?e ?k (VRef ?rec)"
  from deepSet_two [OF a b e1 rootE1, of "VRef ?rec"]
  have st: "stored_two ?h2 ?e a b (VRef ?rec)" and frE: "frame_except ?FE h1 ?h2" by simp_all
  have xFE: "x \<notin> ?FE"
  proof (cases "a \<in> fst ` set qs")
    case True
    from nlt [OF True] lx have "x \<noteq> n" by simp
    with True show ?thesis by simp
  next
    case False
    from elt lx have "x \<noteq> ?e" by simp
    with False show ?thesis by simp
  qed
  have xc2: "cell_at ?h2 x = Some (PlainObj tp)" by (rule frame_except_cell [OF frE xc xFE])
  have recFE: "?rec \<notin> ?FE"
  proof (cases "a \<in> fst ` set qs")
    case True
    from nlt [OF True] have "?rec \<noteq> n" by simp
    with True show ?thesis by simp
  next
    case False
    from elt have "?rec \<noteq> ?e" by simp
    with False show ?thesis by simp
  qed
  have r2: "cell_at ?h2 ?rec = Some ?r" by (rule frame_except_cell [OF frE r1 recFE])
  have mFE: "a \<in> fst ` set tp \<longrightarrow> m \<notin> ?FE"
  proof
    assume "a \<in> fst ` set tp"
    with sub have ap: "a \<in> fst ` set ps" by (rule subsetD)
    with sep1 sep2 show "m \<notin> ?FE" by auto
  qed
  have rg2: "root_gone ?h2 tp a b m" by (rule root_gone_frame [OF rg frE mFE])
  have obj: "isObject ?h0 (VRef ?rec)" by (simp add: isObject_def r0)
  have add: "addError ?k (VRef ?rec) (?h0, cs) = Inr (?h2, ?cs1)"
    using obj by (simp add: addError_def del cs1)
  have eq: "p_setProperty validation ?k v old (h, cs) = Inr (?h2, ?cs1)"
    using rej add by (simp add: p_setProperty_def accepted_def alloc_def)
  have c': "entry ?h2 (VRef (CHANGES ?cs1)) [a, b] = None"
    using entry_root_gone [OF xc2 rg2] by simp
  have e': "entry ?h2 (VRef (ERRORS ?cs1)) [a, b] = Some (VRef ?rec)"
    using entry_stored_two [OF st] by simp
  from eq c' e' r2 show ?thesis by blast
qed

section \<open>Evaluation\<close>

text \<open>Closed examples are evaluated with the code equations; the path delete is run in
  its unfolded form.\<close>

declare deleteKeysFromObject_unfold [code]

text \<open>The validator of the examples follows the one of the test suite: a name must be
  present and longer than three characters, the key \<open>async\<close> is validated by a promise
  that resolves with the value, and any other key has no rule, so the validator returns
  \<open>undefined\<close>.\<close>

definition holds :: "error + 'a \<Rightarrow> ('a \<Rightarrow> bool) \<Rightarrow> bool" where
  "holds m P = (case m of Inl e \<Rightarrow> False | Inr x \<Rightarrow> P x)"

lemma holds_iff: "holds m P \<longleftrightarrow> (\<exists>x. m = Inr x \<and> P x)"
  by (cases m) (simp_all add: holds_def)

definition raises :: "error + 'a \<Rightarrow> error \<Rightarrow> bool" where
  "raises m e = (case m of Inl e' \<Rightarrow> e' = e | Inr x \<Rightarrow> False)"

definition dummyValidator :: validatorFn where
  "dummyValidator h key newValue oldValue changesCopy contentRef =
     (if key = ''name'' then
        ([], Now (if isPresent h newValue \<and>
                     (case js_prop h newValue ''length'' of VNum n \<Rightarrow> 3 < n | _ \<Rightarrow> False)
                  then VBool True else VStr ''too short''))
      else if key = ''async'' then ([], Later (Resolves newValue))
      else ([], Now VUndefined))"

definition pendingValidator :: validatorFn where
  "pendingValidator h key newValue oldValue changesCopy contentRef = ([], Later NeverSettles)"

definition empty_changeset :: "validatorFn option \<Rightarrow> state" where
  "empty_changeset v =
     ([PlainObj [], PlainObj [], PlainObj [], PlainObj []],
      \<lparr>CONTENT = 0, CHANGES = 1, ERRORS = 2, VALIDATOR = v, validationMap = [],
       skipValidate = False, RELAY_CACHE = [], RUNNING_VALIDATIONS = 3, triggered = []\<rparr>)"

lemma empty_changeset_new: "new_changeset [PlainObj []] 0 v [] False = Inr (empty_changeset v)"
  by (simp add: new_changeset_def empty_changeset_def alloc_def isPresent_def isBlank_def
      isEmpty_def cell_at_def collection_empty_def)

text \<open>Two changesets on one content, as in the test of \<open>merge\<close>: the first has changed
  \<open>firstName\<close>, the second \<open>lastName\<close>.\<close>

definition merge_store :: heap where
  "merge_store =
     [PlainObj [], PlainObj [(''firstName'', VStr ''Jim'')], PlainObj [], PlainObj [],
      PlainObj [(''lastName'', VStr ''Bob'')], PlainObj [], PlainObj []]"

definition changesetA :: changeset where
  "changesetA =
     \<lparr>CONTENT = 0, CHANGES = 1, ERRORS = 2, VALIDATOR = Some defaultValidatorFn,
      validationMap = [], skipValidate = False, RELAY_CACHE = [], RUNNING_VALIDATIONS = 3,
      triggered = []\<rparr>"

definition changesetB :: changeset where
  "changesetB =
     \<lparr>CONTENT = 0, CHANGES = 4, ERRORS = 5, VALIDATOR = Some defaultValidatorFn,
      validationMap = [], skipValidate = False, RELAY_CACHE = [], RUNNING_VALIDATIONS = 6,
      triggered = []\<rparr>"

section \<open>Reading a key (C2)\<close>

text \<open>
  C2. The claim: \<open>read(k)\<close> returns the pending change at \<open>k\<close> when there is no error
  and no cached relay at \<open>k\<close>, before it falls back to the content. The code does so for a
  key without separator, where \<open>changes.hasOwnProperty(key)\<close> catches a pending change
  that is \<open>null\<close> or \<open>undefined\<close>; for a nested key that test never holds. Here the
  content is \<open>{a: {b: 1}}\<close> and the changeset is new, with the default validator. After
  \<open>write('a.b', null)\<close> the changes buffer holds \<open>null\<close> at \<open>a.b\<close>, and \<open>read('a.b')\<close>
  returns \<open>1\<close>, the value of the content.
\<close>

theorem valueFor_nested_null_change:
  "(case validateAndSet ''a.b'' VNull
           ([PlainObj [(''a'', VRef 1)], PlainObj [(''b'', VNum 1)],
             PlainObj [], PlainObj [], PlainObj []],
            \<lparr>CONTENT = 0, CHANGES = 2, ERRORS = 3, VALIDATOR = Some defaultValidatorFn,
             validationMap = [], skipValidate = False, RELAY_CACHE = [],
             RUNNING_VALIDATIONS = 4, triggered = []\<rparr>) of
      Inl e \<Rightarrow> False
    | Inr (s, p) \<Rightarrow>
        holds (p_recursivelyGet (fst s) ''a'' (VRef (CHANGES (snd s))))
          (\<lambda>m. hasOwnProperty (fst s) m ''b'') \<and>
        p_recursivelyGet (fst s) ''a.b'' (VRef (CHANGES (snd s))) = Inr VNull \<and>
        p_recursivelyGet (fst s) ''a.b'' (VRef (ERRORS (snd s))) = Inr VUndefined \<and>
        RELAY_CACHE (snd s) = [] \<and>
        holds (valueFor ''a.b'' s) (\<lambda>(v, cs). v = VNum 1))"
  by code_simp

section \<open>Writing a key (C1)\<close>




section \<open>A blank validator result (C10)\<close>

text \<open>The results for which presence fails: \<open>undefined\<close>, \<open>null\<close>, a string of white space
  only (the empty string, and one of no-break spaces, among them), an empty array, and an
  object whose \<open>size\<close>, or else \<open>length\<close>, is the number zero.\<close>

lemma blank_results:
  "\<not> isPresent h VUndefined" "\<not> isPresent h VNull" "\<not> isPresent h (VStr [])"
  "\<not> isPresent h (VStr ''  '')" "\<not> isPresent h (VStr [CHR 0xA0])"
  "list_all white_space s \<Longrightarrow> \<not> isPresent h (VStr s)"
  "cell_at h a = Some (ArrayObj []) \<Longrightarrow> \<not> isPresent h (VRef a)"
  "cell_at h a = Some (PlainObj ps) \<Longrightarrow> collection_empty ps \<Longrightarrow> \<not> isPresent h (VRef a)"
  by (simp_all add: isPresent_def isBlank_def isEmpty_def white_space_def)

lemma isPresent_iff:
  "isPresent h r \<longleftrightarrow>
     (case r of
        VUndefined \<Rightarrow> False
      | VNull \<Rightarrow> False
      | VStr s \<Rightarrow> \<not> list_all white_space s
      | VRef a \<Rightarrow>
          (case cell_at h a of
             Some (ArrayObj xs) \<Rightarrow> xs \<noteq> []
           | Some (PlainObj ps) \<Rightarrow> \<not> collection_empty ps
           | None \<Rightarrow> True)
      | _ \<Rightarrow> True)"
  by (cases r) (auto simp: isPresent_def isBlank_def isEmpty_def split: option.splits cell.splits)

text \<open>
  C10, as amended. Take a write \<open>validateAndSet(k, v)\<close> with \<open>skipValidate\<close> unset, a key
  \<open>k\<close> that is not empty and has no separator, and a validator that returns synchronously
  a value for which presence fails. The write returns, no error is left at \<open>k\<close>, and
  afterwards the changes buffer holds \<open>v\<close> at \<open>k\<close> exactly when \<open>v\<close> differs from the
  content's value at \<open>k\<close>.
\<close>

theorem write_blank_result:
  assumes "\<not> skipValidate cs"
    and "k \<noteq> []"
    and "DOT_SEPARATOR \<notin> set k"
    and "cell_at h (CHANGES cs) = Some (PlainObj ps)"
    and "cell_at h (ERRORS cs) = Some (PlainObj qs)"
    and "''__ember_meta__'' \<notin> fst ` set qs"
    and "VALIDATOR cs = Some f"
    and "f (h @ [PlainObj (assign_props [] ps)]) k v (js_prop h (VRef (CONTENT cs)) k)
           (length h) (CONTENT cs) = (cells, Now r)"
    and "\<not> isPresent (h @ PlainObj (assign_props [] ps) # cells) r"
  shows "\<exists>h' cs'. validateAndSet k v (h, cs) = Inr ((h', cs'), None) \<and>
           \<not> hasOwnProperty h' (VRef (ERRORS cs')) k \<and>
           ((hasOwnProperty h' (VRef (CHANGES cs')) k \<and> js_prop h' (VRef (CHANGES cs')) k = v) =
            (v \<noteq> js_prop h (VRef (CONTENT cs)) k))"
proof -
  let ?old = "js_prop h (VRef (CONTENT cs)) k"
  let ?h1 = "h @ PlainObj (assign_props [] ps) # cells"
  have old: "ember_get h (VRef (CONTENT cs)) k = Inr ?old"
    by (rule ember_get_flat [OF assms(2,3)])
  have pv: "p_validate k v ?old (h, cs) = (?h1, Now (VBool True))"
    using p_validate_Some [OF assms(7) assms(4) assms(8)] assms(9) by simp
  have acc: "accepted ?h1 (VBool True)" by (simp add: accepted_def)
  obtain h' cs' where eq: "validateAndSet k v (h, cs) = Inr ((h', cs'), None)"
    and c': "cell_at h' (CHANGES cs') = Some (PlainObj (changes_after True k v ?old ps))"
    and e': "cell_at h' (ERRORS cs') = Some (PlainObj (errors_after True k (length ?h1) qs))"
    using validateAndSet_sync_flat [OF assms(1) assms(3-6) old pv] acc by auto
  show ?thesis
    using eq c' e'
    by (auto simp: changes_after_def errors_after_def hasOwnProperty_plain js_prop_plain
        not_own_remaining own_update lookup_update)
qed

text \<open>
  The claim as stated fails at the empty key, which \<open>get\<close> refuses with an assertion
  before the validator is called. It also fails for keys with a separator: with an error
  pending on another key, a blank result for the four-segment key \<open>a.b.c.d\<close> makes the
  write raise, since the path delete refuses the depth. And with the content
  \<open>{a: {b: 1}}\<close>, after \<open>write('a.b', 2)\<close> and \<open>execute()\<close>, a second \<open>write('a.b', 2)\<close>
  leaves \<open>2\<close> stored as a change although it now equals the content's value.
\<close>

theorem write_blank_result_counterexample:
  "raises (validateAndSet [] (VNum 1) (empty_changeset (Some dummyValidator)))
     (AssertionFailed ''Cannot call `Ember.get` with an empty string'') \<and>
   holds (addError ''x'' (VStr ''bad'') (empty_changeset (Some dummyValidator)))
     (\<lambda>s. raises (validateAndSet ''a.b.c.d'' (VNum 1) s)
            (Error ''Nested level 4 is not supported yet'')) \<and>
   holds (new_changeset [PlainObj [(''a'', VRef 1)], PlainObj [(''b'', VNum 1)]] 0
            (Some dummyValidator) [] False)
     (\<lambda>s0. holds (validateAndSet ''a.b'' (VNum 2) s0)
        (\<lambda>(s1, p). holds (execute s1)
           (\<lambda>s2. holds (validateAndSet ''a.b'' (VNum 2) s2)
              (\<lambda>(s3, p). ember_get (fst s2) (VRef (CONTENT (snd s2))) ''a.b'' = Inr (VNum 2) \<and>
                         p_recursivelyGet (fst s3) ''a.b'' (VRef (CHANGES (snd s3))) =
                           Inr (VNum 2)))))"
  by code_simp

theorem write_blank_result_witness:
  "\<not> skipValidate (snd (empty_changeset (Some dummyValidator))) \<and>
   DOT_SEPARATOR \<notin> set ''email'' \<and>
   \<not> isPresent (fst (empty_changeset (Some dummyValidator)) @ [PlainObj []]) VUndefined \<and>
   (\<exists>h' cs'. validateAndSet ''email'' (VStr ''x'') (empty_changeset (Some dummyValidator)) =
        Inr ((h', cs'), None) \<and>
      \<not> hasOwnProperty h' (VRef (ERRORS cs')) ''email'' \<and>
      hasOwnProperty h' (VRef (CHANGES cs')) ''email'' \<and>
      js_prop h' (VRef (CHANGES cs')) ''email'' = VStr ''x'')"
proof -
  let ?h = "fst (empty_changeset (Some dummyValidator))"
  let ?cs = "snd (empty_changeset (Some dummyValidator))"
  have a1: "\<not> skipValidate ?cs" by (simp add: empty_changeset_def)
  have a0: "''email'' \<noteq> []" by simp
  have a2: "DOT_SEPARATOR \<notin> set ''email''" by (simp add: DOT_SEPARATOR_def)
  have a3: "cell_at ?h (CHANGES ?cs) = Some (PlainObj [])"
    by (simp add: empty_changeset_def cell_at_def)
  have a4: "cell_at ?h (ERRORS ?cs) = Some (PlainObj [])"
    by (simp add: empty_changeset_def cell_at_def)
  have a5: "''__ember_meta__'' \<notin> fst ` set ([] :: props)" by simp
  have a6: "VALIDATOR ?cs = Some dummyValidator" by (simp add: empty_changeset_def)
  have a7: "dummyValidator (?h @ [PlainObj (assign_props [] [])]) ''email'' (VStr ''x'')
              (js_prop ?h (VRef (CONTENT ?cs)) ''email'') (length ?h) (CONTENT ?cs) =
            ([], Now VUndefined)"
    by (simp add: dummyValidator_def)
  have a8: "\<not> isPresent (?h @ PlainObj (assign_props [] []) # []) VUndefined"
    by (rule blank_results)
  have old: "js_prop ?h (VRef (CONTENT ?cs)) ''email'' = VUndefined"
    by (simp add: empty_changeset_def js_prop_def cell_at_def lookup_def)
  from write_blank_result [OF a1 a0 a2 a3 a4 a5 a6 a7 a8]
  show ?thesis using a1 a2 a8 old by (simp add: assign_props_def)
qed

section \<open>The validation events (C9)\<close>

text \<open>
  C9, as amended. For a call \<open>validateAndSet(k, v)\<close> that returns: with \<open>skipValidate\<close> set
  no event fires; otherwise \<open>beforeValidation\<close> fires exactly once with the key \<open>k\<close> during
  the call, and \<open>afterValidation\<close> fires exactly once with the key \<open>k\<close>, during the call
  when the validator result is there, and in the callback when the result is a promise
  that resolves. When the promise is rejected or never settles, \<open>afterValidation\<close> does
  not fire. The events are the entries added to \<open>triggered\<close>.
\<close>

theorem validation_events:
  "(validateAndSet k v (h, cs) = Inr ((h', cs'), p) \<longrightarrow>
      (if skipValidate cs then triggered cs' = triggered cs \<and> p = None
       else
         (\<exists>old. ember_get h (VRef (CONTENT cs)) k = Inr old \<and>
            (case snd (p_validate k v old (h, cs)) of
               Now validation \<Rightarrow>
                 triggered cs' = triggered cs @ [BeforeValidation k, AfterValidation k] \<and>
                 p = None
             | Later promise \<Rightarrow>
                 triggered cs' = triggered cs @ [BeforeValidation k] \<and>
                 (\<exists>q. p = Some q \<and> p_key q = k \<and> p_promise q = promise))))) \<and>
   (settle_validation q s = Inr s' \<longrightarrow>
      triggered (snd s') =
        triggered (snd s) @
          (case p_promise q of Resolves r \<Rightarrow> [AfterValidation (p_key q)] | _ \<Rightarrow> []))"
proof (intro conjI impI)
  assume w: "validateAndSet k v (h, cs) = Inr ((h', cs'), p)"
  then obtain old where old: "ember_get h (VRef (CONTENT cs)) k = Inr old"
    by (auto simp: validateAndSet_def Let_def split: sum.splits)
  show "if skipValidate cs then triggered cs' = triggered cs \<and> p = None
       else
         (\<exists>old. ember_get h (VRef (CONTENT cs)) k = Inr old \<and>
            (case snd (p_validate k v old (h, cs)) of
               Now validation \<Rightarrow>
                 triggered cs' = triggered cs @ [BeforeValidation k, AfterValidation k] \<and>
                 p = None
             | Later promise \<Rightarrow>
                 triggered cs' = triggered cs @ [BeforeValidation k] \<and>
                 (\<exists>q. p = Some q \<and> p_key q = k \<and> p_promise q = promise)))"
  proof (cases "skipValidate cs")
    case True
    with w old show ?thesis
      by (auto simp: validateAndSet_def Let_def split: sum.splits dest!: p_setProperty_triggered)
  next
    case False
    obtain h1 res where pv: "p_validate k v old (h, cs) = (h1, res)"
      by (cases "p_validate k v old (h, cs)")
    have "case snd (p_validate k v old (h, cs)) of
               Now validation \<Rightarrow>
                 triggered cs' = triggered cs @ [BeforeValidation k, AfterValidation k] \<and>
                 p = None
             | Later promise \<Rightarrow>
                 triggered cs' = triggered cs @ [BeforeValidation k] \<and>
                 (\<exists>q. p = Some q \<and> p_key q = k \<and> p_promise q = promise)"
    proof (cases res)
      case (Now validation)
      with w False pv old show ?thesis
        by (auto simp: validateAndSet_def Let_def trigger_def split: sum.splits
            dest!: p_setProperty_triggered)
    next
      case (Later promise)
      with w False pv old show ?thesis
        by (auto simp: validateAndSet_def Let_def trigger_def split: sum.splits
            dest!: p_setIsValidating_cs)
    qed
    with False old show ?thesis by auto
  qed
next
  assume st: "settle_validation q s = Inr s'"
  obtain h0 cs0 where s: "s = (h0, cs0)" by (cases s)
  obtain h1 cs1 where s': "s' = (h1, cs1)" by (cases s')
  show "triggered (snd s') =
        triggered (snd s) @
          (case p_promise q of Resolves r \<Rightarrow> [AfterValidation (p_key q)] | _ \<Rightarrow> [])"
    using st unfolding s s'
    by (auto simp: settle_validation_def trigger_def split: settle.splits sum.splits
        dest!: p_setIsValidating_cs p_setProperty_triggered)
qed

text \<open>
  The claim as stated fails with \<open>skipValidate\<close> set, where the write stores the value
  before any event is triggered, and with a validator whose promise never settles, as in
  the tests of \<open>isValidating\<close>: then \<open>beforeValidation\<close> has fired and \<open>afterValidation\<close>
  never does.
\<close>

theorem validation_events_counterexample:
  "holds (new_changeset [PlainObj []] 0 (Some dummyValidator) [] True)
     (\<lambda>s0. holds (validateAndSet ''name'' (VStr ''Jim Bob'') s0)
        (\<lambda>(s, p). triggered (snd s) = [])) \<and>
   holds (validateAndSet ''reservations'' (VStr ''ABC12345'')
            (empty_changeset (Some pendingValidator)))
     (\<lambda>(s, p). triggered (snd s) = [BeforeValidation ''reservations''] \<and>
        (case p of
           None \<Rightarrow> False
         | Some q \<Rightarrow>
             holds (settle_validation q s)
               (\<lambda>s'. triggered (snd s') = [BeforeValidation ''reservations''])))"
  by code_simp

theorem validation_events_witness:
  "holds (validateAndSet ''async'' (VBool True) (empty_changeset (Some dummyValidator)))
     (\<lambda>(s, p). triggered (snd s) = [BeforeValidation ''async''] \<and>
        (case p of
           None \<Rightarrow> False
         | Some q \<Rightarrow>
             holds (settle_validation q s)
               (\<lambda>s'. triggered (snd s') =
                        [BeforeValidation ''async'', AfterValidation ''async''])))"
proof -
  let ?h = "fst (empty_changeset (Some dummyValidator))"
  let ?cs = "snd (empty_changeset (Some dummyValidator))"
  have "holds (validateAndSet ''async'' (VBool True) (?h, ?cs))
          (\<lambda>(s, p). case p of None \<Rightarrow> False
                     | Some q \<Rightarrow> holds (settle_validation q s) (\<lambda>s'. True))"
    by code_simp
  then obtain h' cs' q s' where w: "validateAndSet ''async'' (VBool True) (?h, ?cs) = Inr ((h', cs'), Some q)"
    and st: "settle_validation q (h', cs') = Inr s'"
    by (auto simp: holds_iff split: option.splits)
  have skip: "\<not> skipValidate ?cs" by (simp add: empty_changeset_def)
  have old: "ember_get ?h (VRef (CONTENT ?cs)) ''async'' = Inr VUndefined"
    by code_simp
  have pv: "snd (p_validate ''async'' (VBool True) VUndefined (?h, ?cs)) =
              Later (Resolves (VBool True))"
    by code_simp
  have tr0: "triggered ?cs = []" by (simp add: empty_changeset_def)
  from validation_events [of "''async''" "VBool True" ?h ?cs h' cs' "Some q" q "(h', cs')" s']
  have e1: "triggered cs' = [BeforeValidation ''async'']"
    and q: "p_key q = ''async''" "p_promise q = Resolves (VBool True)"
    and e2: "triggered (snd s') =
               triggered cs' @
                 (case p_promise q of Resolves r \<Rightarrow> [AfterValidation (p_key q)] | _ \<Rightarrow> [])"
    using w st skip pv tr0 old by auto
  show ?thesis
    using w st e1 e2 q by (simp add: holds_iff)
qed

section \<open>Saving (C6)\<close>

text \<open>
  C6. \<open>save(options)\<close> runs \<open>execute()\<close>; let \<open>s1\<close> be the state that \<open>execute\<close> returns.
  Without a \<open>save\<close> function on the content the promise is fulfilled with the changeset
  itself, and with one it is called with the options. When its promise resolves, \<open>save\<close>
  is fulfilled with the same result, in both cases after a rollback, which leaves both
  buffers empty. When it rejects, \<open>save\<close> is rejected with the same reason and the state is
  the one after \<open>execute\<close>: the changeset is as before the call, and, the content being an
  object other than the changes buffer whose keys have no separator, so is every object
  but the content.
\<close>

theorem save_outcomes:
  assumes "execute (h, cs) = Inr s1"
  shows "(content_save = None \<longrightarrow>
            save content_save options (h, cs) = Inr (rollback s1, Fulfilled ThisChangeset)) \<and>
         (\<forall>f result. content_save = Some f \<and> f (fst s1) options = Resolves result \<longrightarrow>
            save content_save options (h, cs) = Inr (rollback s1, Fulfilled (SaveResult result))) \<and>
         (\<forall>f reason. content_save = Some f \<and> f (fst s1) options = Rejects reason \<longrightarrow>
            save content_save options (h, cs) = Inr (s1, Rejected reason)) \<and>
         isPristine (rollback s1) \<and> isValid (rollback s1) \<and>
         snd s1 = cs \<and>
         (\<forall>cps ps a. cell_at h (CONTENT cs) = Some (PlainObj cps) \<and>
              cell_at h (CHANGES cs) = Some (PlainObj ps) \<and> CHANGES cs \<noteq> CONTENT cs \<and>
              (\<forall>k \<in> fst ` set ps. DOT_SEPARATOR \<notin> set k) \<and> a \<noteq> CONTENT cs \<longrightarrow>
              cell_at (fst s1) a = cell_at h a)"
proof -
  obtain h1 cs1 where s1: "s1 = (h1, cs1)" by (cases s1)
  have cs1: "cs1 = cs" using assms s1 execute_cs by simp
  have frame: "cell_at h1 a = cell_at h a"
    if "cell_at h (CONTENT cs) = Some (PlainObj cps)" "cell_at h (CHANGES cs) = Some (PlainObj ps)"
      "CHANGES cs \<noteq> CONTENT cs" "\<forall>k \<in> fst ` set ps. DOT_SEPARATOR \<notin> set k" "a \<noteq> CONTENT cs"
    for cps ps a
    using execute_flat [OF that(1-4)] assms s1 that(5)
    by (auto simp: cell_at_update split: if_splits)
  show ?thesis
    using assms s1 cs1 rollback_clears [of s1] frame
    by (auto simp: save_def)
qed

theorem save_outcomes_witness:
  "\<exists>h cs s1.
     validateAndSet ''name'' (VStr ''foo'') (empty_changeset (Some defaultValidatorFn)) =
       Inr ((h, cs), None) \<and>
     execute (h, cs) = Inr s1 \<and>
     save (Some (\<lambda>h1 opts. Rejects (VStr ''some ember data error''))) (VStr ''test options'')
       (h, cs) = Inr (s1, Rejected (VStr ''some ember data error'')) \<and>
     save (Some (\<lambda>h1 opts. Resolves (VStr ''saveResult''))) (VStr ''test options'') (h, cs) =
       Inr (rollback s1, Fulfilled (SaveResult (VStr ''saveResult''))) \<and>
     save None VUndefined (h, cs) = Inr (rollback s1, Fulfilled ThisChangeset) \<and>
     isPristine (rollback s1) \<and> isValid (rollback s1) \<and> snd s1 = cs"
proof -
  have "holds (validateAndSet ''name'' (VStr ''foo'') (empty_changeset (Some defaultValidatorFn)))
          (\<lambda>(s, p). p = None \<and> holds (execute s) (\<lambda>s1. True))"
    by code_simp
  then obtain h cs s1
    where w: "validateAndSet ''name'' (VStr ''foo'') (empty_changeset (Some defaultValidatorFn)) =
                Inr ((h, cs), None)"
      and ex: "execute (h, cs) = Inr s1"
    by (auto simp: holds_iff)
  note so = save_outcomes [OF ex]
  have r1: "save (Some (\<lambda>h1 opts. Rejects (VStr ''some ember data error'')))
              (VStr ''test options'') (h, cs) =
            Inr (s1, Rejected (VStr ''some ember data error''))"
    using so [of "Some (\<lambda>h1 opts. Rejects (VStr ''some ember data error''))"
        "VStr ''test options''"] by simp
  have r2: "save (Some (\<lambda>h1 opts. Resolves (VStr ''saveResult''))) (VStr ''test options'')
              (h, cs) = Inr (rollback s1, Fulfilled (SaveResult (VStr ''saveResult'')))"
    using so [of "Some (\<lambda>h1 opts. Resolves (VStr ''saveResult''))" "VStr ''test options''"]
    by simp
  have r3: "save None VUndefined (h, cs) = Inr (rollback s1, Fulfilled ThisChangeset)"
    using so [of None VUndefined] by simp
  have r4: "isPristine (rollback s1) \<and> isValid (rollback s1) \<and> snd s1 = cs"
    using so [of None VUndefined] by simp
  show ?thesis using w ex r1 r2 r3 r4 by blast
qed

section \<open>Merging (C5)\<close>

text \<open>
  C5, as amended. The buffers of both changesets are plain objects. \<open>merge(other)\<close> raises
  an assertion error when \<open>other\<close> is not a changeset, and when it wraps another content.
  When both changesets are pristine it returns \<open>this\<close>. Otherwise it constructs a new
  changeset, and the constructor asserts that the content is present: if it is not, the
  assertion error of the constructor is raised; if it is, the result is a new changeset
  with the content and the validator of \<open>this\<close>, whose changes are those of \<open>this\<close> without
  the keys of the errors of \<open>other\<close>, overlaid with the changes of \<open>other\<close>, and whose errors
  are those of \<open>this\<close> without the keys of the changes of \<open>other\<close>, overlaid with the errors
  of \<open>other\<close>. Its buffers are new objects and the store is only extended, so no object
  that existed is changed.
\<close>

theorem merge_result:
  assumes "cell_at h (CHANGES this) = Some (PlainObj ca)"
    and "cell_at h (ERRORS this) = Some (PlainObj ea)"
    and "cell_at h (CHANGES other) = Some (PlainObj cb)"
    and "cell_at h (ERRORS other) = Some (PlainObj eb)"
    and "distinct (map fst ca)" "distinct (map fst ea)"
    and "distinct (map fst cb)" "distinct (map fst eb)"
  shows "merge (NotAChangeset v) (h, this) =
           Inl (AssertionFailed ''Cannot merge with a non-changeset'') \<and>
         (CONTENT other \<noteq> CONTENT this \<longrightarrow>
            merge (AChangeset other) (h, this) =
              Inl (AssertionFailed ''Cannot merge with a changeset of different content'')) \<and>
         (CONTENT other = CONTENT this \<and> isPristine (h, this) \<and> isPristine (h, other) \<longrightarrow>
            merge (AChangeset other) (h, this) = Inr (h, This)) \<and>
         (CONTENT other = CONTENT this \<and> \<not> (isPristine (h, this) \<and> isPristine (h, other)) \<and>
          \<not> isPresent h (VRef (CONTENT this)) \<longrightarrow>
            merge (AChangeset other) (h, this) =
              Inl (AssertionFailed ''Underlying object for changeset is missing'')) \<and>
         (CONTENT other = CONTENT this \<and> \<not> (isPristine (h, this) \<and> isPristine (h, other)) \<and>
          isPresent h (VRef (CONTENT this)) \<longrightarrow>
            (\<exists>ext n mc me.
               merge (AChangeset other) (h, this) = Inr (h @ ext, New n) \<and>
               CONTENT n = CONTENT this \<and> VALIDATOR n = VALIDATOR this \<and>
               length h \<le> CHANGES n \<and> length h \<le> ERRORS n \<and>
               cell_at (h @ ext) (CHANGES n) = Some (PlainObj mc) \<and>
               map_of mc = overlay ca (fst ` set eb) cb \<and>
               cell_at (h @ ext) (ERRORS n) = Some (PlainObj me) \<and>
               map_of me = overlay ea (fst ` set cb) eb))"
proof (intro conjI impI)
  show "merge (NotAChangeset v) (h, this) =
          Inl (AssertionFailed ''Cannot merge with a non-changeset'')"
    by (simp add: merge_def)
next
  assume "CONTENT other \<noteq> CONTENT this"
  then show "merge (AChangeset other) (h, this) =
               Inl (AssertionFailed ''Cannot merge with a changeset of different content'')"
    by (simp add: merge_def)
next
  assume "CONTENT other = CONTENT this \<and> isPristine (h, this) \<and> isPristine (h, other)"
  then show "merge (AChangeset other) (h, this) = Inr (h, This)"
    by (simp add: merge_def)
next
  assume "CONTENT other = CONTENT this \<and> \<not> (isPristine (h, this) \<and> isPristine (h, other)) \<and>
          \<not> isPresent h (VRef (CONTENT this))"
  then show "merge (AChangeset other) (h, this) =
               Inl (AssertionFailed ''Underlying object for changeset is missing'')"
    by (simp add: merge_def new_changeset_def)
next
  assume a: "CONTENT other = CONTENT this \<and> \<not> (isPristine (h, this) \<and> isPristine (h, other)) \<and>
             isPresent h (VRef (CONTENT this))"
  then have dirty: "\<not> (ca = [] \<and> cb = [])"
    by (simp add: isPristine_def isEmptyObject_plain [OF assms(1)] isEmptyObject_plain [OF assms(3)])
  let ?ext = "[PlainObj [], PlainObj [], PlainObj [], PlainObj (kept ea cb), PlainObj (kept ca eb),
               PlainObj (assign_props (assign_props [] (kept ca eb)) cb),
               PlainObj (assign_props (assign_props [] (kept ea cb)) eb)]"
  let ?n = "\<lparr>CONTENT = CONTENT this, CHANGES = length h + 5, ERRORS = length h + 6,
             VALIDATOR = VALIDATOR this, validationMap = [], skipValidate = False,
             RELAY_CACHE = [], RUNNING_VALIDATIONS = length h + 2, triggered = []\<rparr>"
  have m: "merge (AChangeset other) (h, this) = Inr (h @ ?ext, New ?n)"
    using merge_new [OF assms(1-4) _ dirty] a by simp
  have c: "cell_at (h @ ?ext) (CHANGES ?n) =
             Some (PlainObj (assign_props (assign_props [] (kept ca eb)) cb))"
    using cell_at_append_off [of h ?ext 5] by simp
  have e: "cell_at (h @ ?ext) (ERRORS ?n) =
             Some (PlainObj (assign_props (assign_props [] (kept ea cb)) eb))"
    using cell_at_append_off [of h ?ext 6] by simp
  show "\<exists>ext n mc me.
          merge (AChangeset other) (h, this) = Inr (h @ ext, New n) \<and>
          CONTENT n = CONTENT this \<and> VALIDATOR n = VALIDATOR this \<and>
          length h \<le> CHANGES n \<and> length h \<le> ERRORS n \<and>
          cell_at (h @ ext) (CHANGES n) = Some (PlainObj mc) \<and>
          map_of mc = overlay ca (fst ` set eb) cb \<and>
          cell_at (h @ ext) (ERRORS n) = Some (PlainObj me) \<and>
          map_of me = overlay ea (fst ` set cb) eb"
    using m c e overlay_kept [OF assms(5) assms(7), of eb] overlay_kept [OF assms(6) assms(8), of cb]
    by (intro exI [of _ ?ext] exI [of _ ?n] exI [of _ "assign_props (assign_props [] (kept ca eb)) cb"]
        exI [of _ "assign_props (assign_props [] (kept ea cb)) eb"]) simp
qed

text \<open>
  The claim as stated leaves the assertion of the constructor out. The content
  \<open>{length: 5}\<close> is present; after \<open>write('length', 0)\<close> and \<open>execute()\<close> it is
  \<open>{length: 0}\<close>, which \<open>isPresent\<close> takes for an empty collection, and merging the dirty
  changeset with a second one on the same content raises.
\<close>

theorem merge_result_counterexample:
  "holds (new_changeset [PlainObj [(''length'', VNum 5)]] 0 (Some defaultValidatorFn) [] False)
     (\<lambda>a. holds (new_changeset (fst a) 0 (Some defaultValidatorFn) [] False)
        (\<lambda>b. holds (validateAndSet ''length'' (VNum 0) (fst b, snd a))
           (\<lambda>(s1, p). holds (execute s1)
              (\<lambda>s2. isDirty s2 \<and> CONTENT (snd b) = CONTENT (snd s2) \<and>
                    raises (merge (AChangeset (snd b)) s2)
                      (AssertionFailed ''Underlying object for changeset is missing'')))))"
  by code_simp

theorem merge_result_witness:
  "cell_at merge_store (CHANGES changesetA) = Some (PlainObj [(''firstName'', VStr ''Jim'')]) \<and>
   cell_at merge_store (CHANGES changesetB) = Some (PlainObj [(''lastName'', VStr ''Bob'')]) \<and>
   CONTENT changesetB = CONTENT changesetA \<and>
   \<not> (isPristine (merge_store, changesetA) \<and> isPristine (merge_store, changesetB)) \<and>
   isPresent merge_store (VRef (CONTENT changesetA)) \<and>
   (\<exists>ext n mc me.
      merge (AChangeset changesetB) (merge_store, changesetA) = Inr (merge_store @ ext, New n) \<and>
      cell_at (merge_store @ ext) (CHANGES n) = Some (PlainObj mc) \<and>
      map_of mc ''firstName'' = Some (VStr ''Jim'') \<and>
      map_of mc ''lastName'' = Some (VStr ''Bob'') \<and>
      cell_at (merge_store @ ext) (ERRORS n) = Some (PlainObj me) \<and>
      map_of me ''firstName'' = None)"
proof -
  have a1: "cell_at merge_store (CHANGES changesetA) = Some (PlainObj [(''firstName'', VStr ''Jim'')])"
    by (simp add: merge_store_def changesetA_def cell_at_def)
  have a2: "cell_at merge_store (ERRORS changesetA) = Some (PlainObj [])"
    by (simp add: merge_store_def changesetA_def cell_at_def)
  have a3: "cell_at merge_store (CHANGES changesetB) = Some (PlainObj [(''lastName'', VStr ''Bob'')])"
    by (simp add: merge_store_def changesetB_def cell_at_def)
  have a4: "cell_at merge_store (ERRORS changesetB) = Some (PlainObj [])"
    by (simp add: merge_store_def changesetB_def cell_at_def)
  have same: "CONTENT changesetB = CONTENT changesetA"
    by (simp add: changesetA_def changesetB_def)
  have dirty: "\<not> (isPristine (merge_store, changesetA) \<and> isPristine (merge_store, changesetB))"
    by (simp add: isPristine_def isEmptyObject_plain [OF a1])
  have present: "isPresent merge_store (VRef (CONTENT changesetA))"
    by (simp add: isPresent_def isBlank_def isEmpty_def merge_store_def changesetA_def cell_at_def
        collection_empty_def)
  from merge_result [OF a1 a2 a3 a4, of VUndefined] same dirty present
  obtain ext n mc me
    where "merge (AChangeset changesetB) (merge_store, changesetA) = Inr (merge_store @ ext, New n)"
      and "cell_at (merge_store @ ext) (CHANGES n) = Some (PlainObj mc)"
      and "map_of mc = overlay [(''firstName'', VStr ''Jim'')] (fst ` set []) [(''lastName'', VStr ''Bob'')]"
      and "cell_at (merge_store @ ext) (ERRORS n) = Some (PlainObj me)"
      and "map_of me = overlay [] (fst ` set [(''lastName'', VStr ''Bob'')]) []"
    by auto
  then show ?thesis
    using a1 a3 same dirty present by (auto simp: overlay_def)
qed

end
